theory Spec2Isabelle
  imports Complex_Main "HOL-Library.Word" "HOL-Library.Log_Nat"
begin

section \<open>JavaScript numbers and typed-array bytes\<close>

text \<open>
  The values that flow through \<open>compressImage\<close> (src/src/App.js) are JavaScript numbers.
  A finite number is modelled by the real it denotes, and every addition and multiplication
  rounds its exact result to binary64, as the language prescribes. The three special values
  are kept, because the arithmetic, \<open>Math.max\<close>, \<open>Math.min\<close> and the store into the
  \<open>Uint8ClampedArray\<close> of an \<open>ImageData\<close> treat them specially. The sign of zero is not
  modelled (nothing in this program observes it). Reading an array out of range gives
  \<open>undefined\<close>, which every arithmetic operation of this program converts to \<open>NaN\<close>: such
  a read is modelled as \<open>NaN\<close>.
\<close>

datatype jsnum = Num real | NaN | PInf | NInf

type_synonym matrix = "jsnum list list"

type_synonym bytes = "8 word list"

text \<open>The exceptions a run can end with: a JavaScript \<open>TypeError\<close> (a property read on
  \<open>undefined\<close>), the \<open>IndexSizeError\<close> of \<open>getImageData\<close> on an empty rectangle, an
  exception thrown by \<open>numeric.svd\<close>, and an operand of \<open>numeric.dot\<close> that is not a
  two-dimensional array.\<close>

datatype error = TypeError | IndexSizeError | SvdThrows string | NotAMatrix

subsection \<open>Rounding to binary64\<close>

text \<open>\<open>pow2 e\<close> is \<open>2\<close> to the power \<open>e\<close>, for an integer \<open>e\<close> of either sign.\<close>

definition pow2 :: "int \<Rightarrow> real" where
  "pow2 e = (if 0 \<le> e then 2 ^ nat e else 1 / 2 ^ nat (- e))"

text \<open>
  The binary exponent of a positive real: the \<open>e\<close> with \<open>2\<^sup>e \<le> x < 2\<^sup>e\<^sup>+\<^sup>1\<close>, read off
  the bit length of \<open>\<lfloor>x\<rfloor>\<close> when \<open>x \<ge> 1\<close> and of \<open>\<lceil>1/x\<rceil> - 1\<close> otherwise.
\<close>

definition bexp :: "real \<Rightarrow> int" where
  "bexp x = (if 1 \<le> x then bitlen \<lfloor>x\<rfloor> - 1 else - bitlen (\<lceil>1 / x\<rceil> - 1))"

text \<open>Rounding to the nearest integer, a tie going to the even neighbour.\<close>

definition round_half_even :: "real \<Rightarrow> int" where
  "round_half_even q =
     (let f = \<lfloor>q\<rfloor> in
      if q < of_int f + 1 / 2 then f
      else if of_int f + 1 / 2 < q then f + 1
      else if even f then f
      else f + 1)"

text \<open>
  The binary64 number nearest to a real (ties to even): 53 significant bits, the exponent
  not below \<open>-1022\<close> (subnormal numbers share the spacing \<open>2\<^sup>-\<^sup>1\<^sup>0\<^sup>7\<^sup>4\<close>), and an infinity when
  the rounded value reaches \<open>2\<^sup>1\<^sup>0\<^sup>2\<^sup>4\<close>, which is when the exponent is at least 1024, or is
  1023 and the significand rounds up to \<open>2\<^sup>5\<^sup>3\<close>.
\<close>

definition fl64 :: "real \<Rightarrow> jsnum" where
  "fl64 x =
     (if x = 0 then Num 0
      else (let a = \<bar>x\<bar>;
                e = max (bexp a) (- 1022);
                ulp = pow2 (e - 52);
                n = round_half_even (a / ulp)
            in if 1024 \<le> e \<or> (e = 1023 \<and> n = 2 ^ 53) then (if 0 < x then PInf else NInf)
               else Num (if 0 < x then of_int n * ulp else - (of_int n * ulp))))"

subsection \<open>Arithmetic and typed arrays\<close>

fun jadd :: "jsnum \<Rightarrow> jsnum \<Rightarrow> jsnum" where
  "jadd (Num a) (Num b) = fl64 (a + b)"
| "jadd NaN _ = NaN"
| "jadd _ NaN = NaN"
| "jadd PInf NInf = NaN"
| "jadd NInf PInf = NaN"
| "jadd PInf _ = PInf"
| "jadd _ PInf = PInf"
| "jadd NInf _ = NInf"
| "jadd _ NInf = NInf"

definition inf_of_sign :: "real \<Rightarrow> jsnum" where
  "inf_of_sign a = (if a = 0 then NaN else if 0 < a then PInf else NInf)"

fun jmul :: "jsnum \<Rightarrow> jsnum \<Rightarrow> jsnum" where
  "jmul (Num a) (Num b) = fl64 (a * b)"
| "jmul NaN _ = NaN"
| "jmul _ NaN = NaN"
| "jmul (Num a) PInf = inf_of_sign a"
| "jmul (Num a) NInf = inf_of_sign (- a)"
| "jmul PInf (Num b) = inf_of_sign b"
| "jmul NInf (Num b) = inf_of_sign (- b)"
| "jmul PInf PInf = PInf"
| "jmul NInf NInf = PInf"
| "jmul PInf NInf = NInf"
| "jmul NInf PInf = NInf"

text \<open>\<open>Math.max(a, b)\<close> and \<open>Math.min(a, b)\<close>: \<open>NaN\<close> as soon as one argument is.\<close>

fun Math_max :: "jsnum \<Rightarrow> jsnum \<Rightarrow> jsnum" where
  "Math_max NaN _ = NaN"
| "Math_max _ NaN = NaN"
| "Math_max PInf _ = PInf"
| "Math_max _ PInf = PInf"
| "Math_max NInf b = b"
| "Math_max a NInf = a"
| "Math_max (Num a) (Num b) = Num (max a b)"

fun Math_min :: "jsnum \<Rightarrow> jsnum \<Rightarrow> jsnum" where
  "Math_min NaN _ = NaN"
| "Math_min _ NaN = NaN"
| "Math_min NInf _ = NInf"
| "Math_min _ NInf = NInf"
| "Math_min PInf b = b"
| "Math_min a PInf = a"
| "Math_min (Num a) (Num b) = Num (min a b)"

text \<open>
  \<open>out.data\<close> is the \<open>Uint8ClampedArray\<close> of an \<open>ImageData\<close>. A store converts the
  number with ECMAScript's ToUint8Clamp: \<open>NaN\<close> becomes 0, the value is clamped to
  \<open>[0, 255]\<close> and rounded to the nearest integer, a tie going to the even neighbour.
\<close>

definition ToUint8Clamp :: "jsnum \<Rightarrow> 8 word" where
  "ToUint8Clamp v =
     (case v of
        NaN \<Rightarrow> 0
      | PInf \<Rightarrow> 255
      | NInf \<Rightarrow> 0
      | Num x \<Rightarrow>
          if x \<le> 0 then 0
          else if 255 \<le> x then 255
          else (let f = \<lfloor>x\<rfloor> in
                if x < of_int f + 1 / 2 then of_int f
                else if of_int f + 1 / 2 < x then of_int (f + 1)
                else if even f then of_int f
                else of_int (f + 1)))"

text \<open>\<open>xs[j]\<close> used as a number: \<open>undefined\<close> (out of range) acts as \<open>NaN\<close>.\<close>

definition nth_num :: "jsnum list \<Rightarrow> nat \<Rightarrow> jsnum" where
  "nth_num xs j = (if j < length xs then xs ! j else NaN)"

text \<open>\<open>data[i]\<close> of a byte array used as a number.\<close>

definition byte_at :: "bytes \<Rightarrow> nat \<Rightarrow> jsnum" where
  "byte_at d i = (if i < length d then Num (real (unat (d ! i))) else NaN)"

text \<open>A store into a typed array: converted by ToUint8Clamp, ignored out of range.\<close>

definition store :: "bytes \<Rightarrow> nat \<Rightarrow> jsnum \<Rightarrow> bytes" where
  "store d i v = (if i < length d then d[i := ToUint8Clamp v] else d)"

section \<open>Rasters\<close>

text \<open>An \<open>ImageData\<close>: \<open>width\<close>, \<open>height\<close> and the RGBA bytes, row by row.\<close>

record raster =
  width :: nat
  height :: nat
  data :: bytes

definition well_formed :: "raster \<Rightarrow> bool" where
  "well_formed ras \<longleftrightarrow> length (data ras) = 4 * (width ras * height ras)"

section \<open>Writing the reconstruction to the canvas (App.js, lines 78 to 86)\<close>

text \<open>
  Line 81, for a row \<open>r\<close> that \<open>recon\<close> has: a missing column gives \<open>undefined\<close>,
  hence \<open>NaN\<close>.
\<close>

definition lum_of :: "matrix \<Rightarrow> nat \<Rightarrow> nat \<Rightarrow> jsnum" where
  "lum_of recon r c = Math_min (Math_max (nth_num (recon ! r) c) (Num 0)) (Num 255)"

text \<open>The body of the inner loop. \<open>recon[r][c]\<close> throws a \<open>TypeError\<close> when
  \<open>recon\<close> has no row \<open>r\<close>.\<close>

definition write_pixel :: "matrix \<Rightarrow> nat \<Rightarrow> nat \<Rightarrow> nat \<Rightarrow> bytes \<Rightarrow> error + bytes" where
  "write_pixel recon w r c d =
     (if r < length recon then
        (let lum = lum_of recon r c;
             idx = (r * w + c) * 4;
             d1 = store d (idx + 2) lum;
             d2 = store d1 (idx + 1) lum;
             d3 = store d2 idx lum
         in Inr (store d3 (idx + 3) (Num 255)))
      else Inl TypeError)"

fun write_row :: "matrix \<Rightarrow> nat \<Rightarrow> nat \<Rightarrow> nat list \<Rightarrow> bytes \<Rightarrow> error + bytes" where
  "write_row recon w r [] d = Inr d"
| "write_row recon w r (c # cs) d =
     (case write_pixel recon w r c d of
        Inl e \<Rightarrow> Inl e
      | Inr d' \<Rightarrow> write_row recon w r cs d')"

fun write_rows :: "matrix \<Rightarrow> nat \<Rightarrow> nat list \<Rightarrow> bytes \<Rightarrow> error + bytes" where
  "write_rows recon w [] d = Inr d"
| "write_rows recon w (r # rs) d =
     (case write_row recon w r [0..<w] d of
        Inl e \<Rightarrow> Inl e
      | Inr d' \<Rightarrow> write_rows recon w rs d')"

text \<open>\<open>ctx.createImageData(width, height)\<close> is transparent black; the two loops fill it.\<close>

definition write_raster :: "matrix \<Rightarrow> nat \<Rightarrow> nat \<Rightarrow> error + raster" where
  "write_raster recon w h =
     (case write_rows recon w [0..<h] (replicate (4 * (w * h)) 0) of
        Inl e \<Rightarrow> Inl e
      | Inr d \<Rightarrow> Inr \<lparr>width = w, height = h, data = d\<rparr>)"

section \<open>The grayscale matrix (App.js, lines 52 to 58)\<close>

text \<open>
  Line 56 on three channel values. The literals \<open>0.299\<close>, \<open>0.587\<close> and \<open>0.114\<close> denote
  the binary64 numbers nearest to them; the products and the two sums are rounded in turn.
\<close>

definition luminance :: "jsnum \<Rightarrow> jsnum \<Rightarrow> jsnum \<Rightarrow> jsnum" where
  "luminance R G B =
     jadd (jadd (jmul (fl64 (299 / 1000)) R) (jmul (fl64 (587 / 1000)) G))
          (jmul (fl64 (114 / 1000)) B)"

definition gray_entry :: "raster \<Rightarrow> nat \<Rightarrow> nat \<Rightarrow> jsnum" where
  "gray_entry ras r c =
     (let idx = (r * width ras + c) * 4;
          R = byte_at (data ras) idx;
          G = byte_at (data ras) (idx + 1);
          B = byte_at (data ras) (idx + 2)
      in luminance R G B)"

definition gray :: "raster \<Rightarrow> matrix" where
  "gray ras = map (\<lambda>r. map (\<lambda>c. gray_entry ras r c) [0..<width ras]) [0..<height ras]"

section \<open>The functions of the \<open>numeric\<close> package that the pipeline calls\<close>

text \<open>
  The package is a dependency of the repository, not part of it. Its functions are modelled
  on arrays of arrays of numbers by what they compute there.

  \<open>numeric.transpose(x)\<close> reads the column count from \<open>x[0].length\<close> (a \<open>TypeError\<close>
  on an empty array) and returns that many rows of \<open>x.length\<close> entries, entry \<open>i\<close> of row
  \<open>j\<close> being \<open>x[i][j]\<close>.
\<close>

definition numeric_transpose :: "matrix \<Rightarrow> error + matrix" where
  "numeric_transpose x =
     (case x of
        [] \<Rightarrow> Inl TypeError
      | x0 # _ \<Rightarrow>
          Inr (map (\<lambda>j. map (\<lambda>i. nth_num (x ! i) j) [0..<length x]) [0..<length x0]))"

text \<open>\<open>numeric.diag(d)\<close>: the square matrix with \<open>d\<close> on its diagonal and 0 elsewhere.\<close>

definition numeric_diag :: "jsnum list \<Rightarrow> matrix" where
  "numeric_diag d =
     map (\<lambda>i. map (\<lambda>j. if j = i then d ! i else Num 0) [0..<length d]) [0..<length d]"

text \<open>
  \<open>numeric.dot(x, y)\<close> chooses its branch by the number of dimensions of its operands; an
  empty array is not two-dimensional. The model covers the matrix by matrix branch. With
  factors in the shapes of \<open>numeric.svd\<close> an operand of line 73 is empty only when the
  slices of lines 70 to 72 are: the inner call then has two empty arrays, for which the
  library's vector branch returns \<open>NaN\<close>, and the outer call, given a matrix and a number,
  throws its error \<open>numeric.dot only works on vectors and matrices\<close>. The model ends a run
  with that error, \<open>NotAMatrix\<close>, at the first call that has an empty operand; the
  library's vector and scalar branches are not modelled beyond that.

  Entry \<open>k\<close> of row \<open>i\<close> of the product is a sum of the terms \<open>x[i][j] * y[j][k]\<close>, started
  with the last term and continued downwards two terms at a time, the two being added to
  each other before they are added to the sum; a single remaining term \<open>j = 0\<close> is added
  last. With fewer than 10 rows in \<open>y\<close> the terms are those of \<open>j < y.length\<close>; otherwise
  the library copies the column of \<open>y\<close> and takes the terms of \<open>j < x[i].length\<close>, and
  the product of an empty row is \<open>NaN\<close>.
\<close>

fun pair_sum :: "(nat \<Rightarrow> jsnum) \<Rightarrow> nat \<Rightarrow> jsnum \<Rightarrow> jsnum" where
  "pair_sum term 0 woo = woo"
| "pair_sum term (Suc 0) woo = jadd woo (term 0)"
| "pair_sum term (Suc (Suc c)) woo = pair_sum term c (jadd woo (jadd (term (Suc c)) (term c)))"

definition dot_terms :: "nat \<Rightarrow> (nat \<Rightarrow> jsnum) \<Rightarrow> jsnum" where
  "dot_terms len term = (if len = 0 then NaN else pair_sum term (len - 1) (term (len - 1)))"

definition dot_entry :: "jsnum list \<Rightarrow> matrix \<Rightarrow> nat \<Rightarrow> jsnum" where
  "dot_entry bar y k =
     (let q = length y;
          col = (\<lambda>j. if j < q then nth_num (y ! j) k else NaN);
          term = (\<lambda>j. jmul (nth_num bar j) (col j))
      in dot_terms (if q < 10 then q else length bar) term)"

definition numeric_dotMM :: "matrix \<Rightarrow> matrix \<Rightarrow> matrix" where
  "numeric_dotMM x y = map (\<lambda>bar. map (\<lambda>k. dot_entry bar y k) [0..<length (hd y)]) x"

definition numeric_dot :: "matrix \<Rightarrow> matrix \<Rightarrow> error + matrix" where
  "numeric_dot x y = (if x = [] \<or> y = [] then Inl NotAMatrix else Inr (numeric_dotMM x y))"

text \<open>
  \<open>numeric.svd\<close> is an iterative floating-point routine; it is a parameter of the model.
  It returns the three factors \<open>U\<close>, \<open>S\<close>, \<open>V\<close> or throws.
\<close>

type_synonym decomposition = "matrix \<times> jsnum list \<times> matrix"

type_synonym svd_routine = "matrix \<Rightarrow> error + decomposition"

text \<open>
  The shapes \<open>numeric.svd\<close> returns for a matrix with \<open>n\<close> columns: \<open>U\<close> has the rows of
  its argument, each of \<open>n\<close> entries, \<open>S\<close> has \<open>n\<close> entries and \<open>V\<close> is \<open>n\<close> by \<open>n\<close>.
\<close>

definition svd_shapes :: "matrix \<Rightarrow> decomposition \<Rightarrow> bool" where
  "svd_shapes mat usv =
     (case usv of (U, S, V) \<Rightarrow>
        (let n = length (hd mat) in
         length U = length mat \<and> list_all (\<lambda>row. length row = n) U \<and>
         length S = n \<and>
         length V = n \<and> list_all (\<lambda>row. length row = n) V))"

section \<open>The compression core (App.js, lines 52 to 86)\<close>

text \<open>\<open>xs.slice(0, e)\<close> for an integer \<open>e\<close>: a negative end counts from the end.\<close>

definition js_slice0 :: "'a list \<Rightarrow> int \<Rightarrow> 'a list" where
  "js_slice0 xs e =
     (let len = int (length xs);
          fin = (if e < 0 then max (len + e) 0 else min e len)
      in take (nat fin) xs)"

text \<open>Line 61: \<open>tall = height >= width\<close>.\<close>

definition tall :: "raster \<Rightarrow> bool" where
  "tall ras \<longleftrightarrow> width ras \<le> height ras"

text \<open>Line 62: the matrix handed to \<open>numeric.svd\<close>.\<close>

definition orient_forward :: "bool \<Rightarrow> matrix \<Rightarrow> error + matrix" where
  "orient_forward is_tall g = (if is_tall then Inr g else numeric_transpose g)"

text \<open>Line 75: transpose back for wide images.\<close>

definition orient_inverse :: "bool \<Rightarrow> matrix \<Rightarrow> error + matrix" where
  "orient_inverse is_tall recon = (if \<not> is_tall then numeric_transpose recon else Inr recon)"

text \<open>
  Lines 52 to 64: the grayscale matrix, its orientation, and the dimensions \<open>m\<close> and
  \<open>n\<close>. \<open>mat[0].length\<close> throws a \<open>TypeError\<close> when \<open>mat\<close> is empty.
\<close>

definition prepare :: "raster \<Rightarrow> error + (matrix \<times> nat \<times> nat)" where
  "prepare ras =
     (case orient_forward (tall ras) (gray ras) of
        Inl e \<Rightarrow> Inl e
      | Inr mat \<Rightarrow>
          (case mat of
             [] \<Rightarrow> Inl TypeError
           | row0 # _ \<Rightarrow> Inr (mat, length mat, length row0)))"

text \<open>Lines 65 and 66.\<close>

definition kEff_of :: "int \<Rightarrow> nat \<Rightarrow> nat \<Rightarrow> int" where
  "kEff_of kValue m n = (let maxRank = int (min m n) in min kValue maxRank)"

text \<open>Lines 70 to 73: truncation and product.\<close>

definition reconstruct :: "decomposition \<Rightarrow> int \<Rightarrow> error + matrix" where
  "reconstruct usv kEff =
     (case usv of (U, S, V) \<Rightarrow>
        (let Uk = map (\<lambda>row. js_slice0 row kEff) U;
             Sk = numeric_diag (js_slice0 S kEff);
             VkT = map (\<lambda>row. js_slice0 row kEff) V
         in case numeric_transpose VkT of
              Inl e \<Rightarrow> Inl e
            | Inr Vt \<Rightarrow>
                (case numeric_dot Sk Vt of
                   Inl e \<Rightarrow> Inl e
                 | Inr SV \<Rightarrow> numeric_dot Uk SV)))"

text \<open>The synchronous part of \<open>compressImage\<close> between the two \<open>await\<close>s, from the
  \<open>ImageData\<close> read off the canvas to the \<open>ImageData\<close> put back.\<close>

definition compress_core :: "svd_routine \<Rightarrow> raster \<Rightarrow> int \<Rightarrow> error + raster" where
  "compress_core svd ras kValue =
     (case prepare ras of
        Inl e \<Rightarrow> Inl e
      | Inr (mat, m, n) \<Rightarrow>
          (let kEff = kEff_of kValue m n in
           case svd mat of
             Inl e \<Rightarrow> Inl e
           | Inr usv \<Rightarrow>
               (case reconstruct usv kEff of
                  Inl e \<Rightarrow> Inl e
                | Inr recon \<Rightarrow>
                    (case orient_inverse (tall ras) recon of
                       Inl e \<Rightarrow> Inl e
                     | Inr recon' \<Rightarrow> write_raster recon' (width ras) (height ras)))))"

text \<open>
  Lines 44 to 49: the \<open>ImageData\<close> read off the canvas on which the decoded image was
  drawn. \<open>getImageData\<close> throws an \<open>IndexSizeError\<close> when the rectangle has no width or
  no height; otherwise it returns the image's raster.
\<close>

definition getImageData :: "raster \<Rightarrow> error + raster" where
  "getImageData img =
     (if width img = 0 \<or> height img = 0 then Inl IndexSizeError else Inr img)"

text \<open>Lines 44 to 87: from the decoded image to the \<open>ImageData\<close> put back on the canvas.\<close>

definition compress_sync :: "svd_routine \<Rightarrow> raster \<Rightarrow> int \<Rightarrow> error + raster" where
  "compress_sync svd img kValue =
     (case getImageData img of
        Inl e \<Rightarrow> Inl e
      | Inr ras \<Rightarrow> compress_core svd ras kValue)"

text \<open>A matrix of \<open>m\<close> rows that all have \<open>n\<close> entries.\<close>

definition rect :: "matrix \<Rightarrow> nat \<Rightarrow> nat \<Rightarrow> bool" where
  "rect x m n \<longleftrightarrow> length x = m \<and> list_all (\<lambda>row. length row = n) x"

text \<open>
  A decomposition routine to run the core on concrete rasters: the exact factorisation
  \<open>A = A \<cdot> diag(1, \<dots>, 1) \<cdot> I\<close>, in the shapes \<open>numeric.svd\<close> returns.
\<close>

definition svd_trivial :: svd_routine where
  "svd_trivial mat =
     (let n = length (hd mat)
      in Inr (mat, replicate n (Num 1), numeric_diag (replicate n (Num 1))))"

text \<open>
  A decomposition routine whose factors are not finite, in the shapes \<open>numeric.svd\<close>
  returns: every entry of \<open>U\<close>, \<open>S\<close> and \<open>V\<close> is \<open>NaN\<close>.
\<close>

definition svd_nonfinite :: svd_routine where
  "svd_nonfinite mat =
     (let n = length (hd mat)
      in Inr (map (\<lambda>row. replicate n NaN) mat, replicate n NaN, replicate n (replicate n NaN)))"

text \<open>
  Factors that are not finite where the truncation to \<open>kk\<close> components reads them: a
  \<open>NaN\<close> among the first \<open>kk\<close> singular values, or in the first \<open>kk\<close> columns of every
  row of \<open>U\<close>, or of every row of \<open>V\<close>.
\<close>

definition nonfinite_factors :: "decomposition \<Rightarrow> nat \<Rightarrow> bool" where
  "nonfinite_factors usv kk =
     (case usv of (U, S, V) \<Rightarrow>
        NaN \<in> set (take kk S) \<or>
        list_all (\<lambda>row. NaN \<in> set (take kk row)) U \<or>
        list_all (\<lambda>row. NaN \<in> set (take kk row)) V)"

text \<open>The byte the two loops leave at index \<open>i\<close> of \<open>out.data\<close>.\<close>

definition expected_byte :: "matrix \<Rightarrow> nat \<Rightarrow> nat \<Rightarrow> 8 word" where
  "expected_byte recon w i =
     (if i mod 4 = 3 then 255
      else ToUint8Clamp (lum_of recon ((i div 4) div w) ((i div 4) mod w)))"

section \<open>The component state and the generation counter\<close>

text \<open>
  The JPEG blob an invocation obtains from \<open>canvas.toBlob\<close>, labelled with the invocation
  that drew the canvas it encodes, and the URLs the component holds:
  \<open>URL.createObjectURL\<close> gives each file and each blob a URL of its own.
\<close>

record result_blob =
  made_by :: nat
  made_for_k :: int
  blob_size :: nat

datatype url = NoURL | SourceURL nat | ResultURL result_blob

text \<open>Lines 8 to 17; \<open>chosen_file\<close> is the state \<open>file\<close>. A \<open>File\<close> is represented by
  its size, the only property read.\<close>

record app =
  chosen_file :: "nat option"
  origURL :: url
  compressedURL :: url
  k_slider :: int
  origSize :: nat
  compSize :: nat
  isCompressing :: bool
  genRef :: nat

definition initial_app :: app where
  "initial_app =
     \<lparr>chosen_file = None, origURL = NoURL, compressedURL = NoURL, k_slider = 20,
      origSize = 0, compSize = 0, isCompressing = False, genRef = 0\<rparr>"

text \<open>An invocation of \<open>compressImage\<close> that is suspended at an \<open>await\<close>.\<close>

record invocation =
  myGen :: nat
  kValue :: int

text \<open>Lines 20 to 32, for an event that carries a file.\<close>

definition handleUpload :: "nat \<Rightarrow> app \<Rightarrow> app" where
  "handleUpload f s =
     s\<lparr>chosen_file := Some f, origURL := SourceURL f, origSize := f,
       compressedURL := NoURL, compSize := 0\<rparr>"

text \<open>Lines 36 to 38: up to the first \<open>await\<close>.\<close>

definition compressImage_enter :: "int \<Rightarrow> app \<Rightarrow> app \<times> invocation option" where
  "compressImage_enter kv s =
     (if chosen_file s = None then (s, None)
      else (let g = genRef s + 1
            in (s\<lparr>genRef := g, isCompressing := True\<rparr>, Some \<lparr>myGen = g, kValue = kv\<rparr>)))"

text \<open>Lines 91 to 96: after the blob has arrived.\<close>

definition compressImage_publish :: "invocation \<Rightarrow> nat \<Rightarrow> app \<Rightarrow> app" where
  "compressImage_publish call sz s =
     (if genRef s \<noteq> myGen call then s
      else s\<lparr>compSize := sz,
             compressedURL :=
               ResultURL \<lparr>made_by = myGen call, made_for_k = kValue call, blob_size = sz\<rparr>,
             isCompressing := False\<rparr>)"

text \<open>
  What can happen to the component: a file is chosen, \<open>compressImage\<close> is called, the blob
  of a suspended invocation arrives (with its size), or a suspended invocation throws.
  Suspended invocations resume in any order.
\<close>

datatype event = Upload nat | Compress int | Settle nat nat | Throw nat

type_synonym config = "app \<times> invocation list"

fun step :: "event \<Rightarrow> config \<Rightarrow> config" where
  "step (Upload f) (s, pend) = (handleUpload f s, pend)"
| "step (Compress kv) (s, pend) =
     (case compressImage_enter kv s of
        (s', None) \<Rightarrow> (s', pend)
      | (s', Some call) \<Rightarrow> (s', pend @ [call]))"
| "step (Settle g sz) (s, pend) =
     (case find (\<lambda>i. myGen i = g) pend of
        None \<Rightarrow> (s, pend)
      | Some call \<Rightarrow> (compressImage_publish call sz s, filter (\<lambda>i. myGen i \<noteq> g) pend))"
| "step (Throw g) (s, pend) = (s, filter (\<lambda>i. myGen i \<noteq> g) pend)"

fun run :: "event list \<Rightarrow> config \<Rightarrow> config" where
  "run [] c = c"
| "run (e # es) c = run es (step e c)"

fun is_arrival :: "event \<Rightarrow> bool" where
  "is_arrival (Settle _ _) = True"
| "is_arrival (Throw _) = True"
| "is_arrival _ = False"

text \<open>The suspended invocations carry strictly increasing generations, none above the
  counter.\<close>

definition gen_invariant :: "config \<Rightarrow> bool" where
  "gen_invariant c \<longleftrightarrow>
     sorted_wrt (<) (map myGen (snd c)) \<and> list_all (\<lambda>i. myGen i \<le> genRef (fst c)) (snd c)"

text \<open>The visible output is the blob of the given invocation.\<close>

definition shows_result_of :: "app \<Rightarrow> invocation \<Rightarrow> bool" where
  "shows_result_of s call \<longleftrightarrow>
     (\<exists>sz. compressedURL s =
              ResultURL \<lparr>made_by = myGen call, made_for_k = kValue call, blob_size = sz\<rparr> \<and>
           compSize s = sz)"

section \<open>Properties of the raster writer\<close>

lemma length_store: "length (store d i v) = length d"
  by (simp add: store_def)

lemma nth_store: "j < length d \<Longrightarrow> store d i v ! j = (if j = i then ToUint8Clamp v else d ! j)"
  by (simp add: store_def)

lemma ToUint8Clamp_255: "ToUint8Clamp (Num 255) = 255"
  by (simp add: ToUint8Clamp_def)

lemma write_pixel_ok:
  assumes "r < length recon" "c < w"
  shows "\<exists>d'. write_pixel recon w r c d = Inr d' \<and> length d' = length d \<and>
           (\<forall>i<length d. d' ! i = (if i div 4 = r * w + c then expected_byte recon w i else d ! i))"
proof -
  let ?lum = "lum_of recon r c"
  let ?idx = "(r * w + c) * 4"
  let ?d' = "store (store (store (store d (?idx + 2) ?lum) (?idx + 1) ?lum) ?idx ?lum) (?idx + 3) (Num 255)"
  have w: "write_pixel recon w r c d = Inr ?d'"
    using assms by (simp add: write_pixel_def Let_def)
  have len: "length ?d' = length d" by (simp add: length_store)
  have rc: "(r * w + c) div w = r" "(r * w + c) mod w = c"
    using assms by simp_all
  have nth: "?d' ! i = (if i div 4 = r * w + c then expected_byte recon w i else d ! i)"
    if i: "i < length d" for i
  proof (cases "i div 4 = r * w + c")
    case True
    then have "i = ?idx + i mod 4" by (metis mult.commute mult_div_mod_eq)
    moreover have "i mod 4 = 0 \<or> i mod 4 = 1 \<or> i mod 4 = 2 \<or> i mod 4 = 3" by arith
    ultimately consider "i = ?idx" "i mod 4 = 0" | "i = ?idx + 1" "i mod 4 = 1"
      | "i = ?idx + 2" "i mod 4 = 2" | "i = ?idx + 3" "i mod 4 = 3"
      by (metis add.right_neutral)
    then show ?thesis
      using i True rc
      by cases (simp_all add: nth_store length_store expected_byte_def ToUint8Clamp_255)
  next
    case False
    then have "i \<noteq> ?idx" "i \<noteq> ?idx + 1" "i \<noteq> ?idx + 2" "i \<noteq> ?idx + 3"
      by auto
    then show ?thesis using i False by (simp add: nth_store length_store)
  qed
  show ?thesis using w len nth by blast
qed

lemma write_row_ok:
  assumes "r < length recon" "set cs \<subseteq> {..<w}"
  shows "\<exists>d'. write_row recon w r cs d = Inr d' \<and> length d' = length d \<and>
           (\<forall>i<length d. d' ! i =
              (if i div 4 \<in> (\<lambda>c. r * w + c) ` set cs then expected_byte recon w i else d ! i))"
  using assms(2)
proof (induction cs arbitrary: d)
  case Nil
  then show ?case by simp
next
  case (Cons c cs)
  then have c: "c < w" and cs: "set cs \<subseteq> {..<w}" by auto
  from write_pixel_ok[OF assms(1) c, of d] obtain d1 where
    d1: "write_pixel recon w r c d = Inr d1" "length d1 = length d"
      "\<forall>i<length d. d1 ! i = (if i div 4 = r * w + c then expected_byte recon w i else d ! i)"
    by blast
  from Cons.IH[OF cs, of d1] obtain d2 where
    d2: "write_row recon w r cs d1 = Inr d2" "length d2 = length d1"
      "\<forall>i<length d1. d2 ! i =
         (if i div 4 \<in> (\<lambda>c. r * w + c) ` set cs then expected_byte recon w i else d1 ! i)"
    by blast
  have "write_row recon w r (c # cs) d = Inr d2" using d1 d2 by simp
  moreover have "length d2 = length d" using d1 d2 by simp
  moreover have "\<forall>i<length d. d2 ! i =
      (if i div 4 \<in> (\<lambda>c. r * w + c) ` set (c # cs) then expected_byte recon w i else d ! i)"
    using d1 d2 by auto
  ultimately show ?case by blast
qed

lemma row_pixels: "(\<lambda>c. r * w + c) ` {..<w::nat} = {p. p div w = r \<and> 0 < w}"
proof (intro set_eqI iffI)
  fix p assume "p \<in> (\<lambda>c. r * w + c) ` {..<w}"
  then obtain c where "p = r * w + c" "c < w" by auto
  then have "p div w = r" "0 < w" by simp_all
  then show "p \<in> {p. p div w = r \<and> 0 < w}" by simp
next
  fix p assume "p \<in> {p. p div w = r \<and> 0 < w}"
  then have "p = r * w + p mod w" "p mod w < w" by auto
  then show "p \<in> (\<lambda>c. r * w + c) ` {..<w}" by blast
qed

lemma write_rows_ok:
  assumes "set rs \<subseteq> {..<length recon}"
  shows "\<exists>d'. write_rows recon w rs d = Inr d' \<and> length d' = length d \<and>
           (\<forall>i<length d. d' ! i =
              (if 0 < w \<and> (i div 4) div w \<in> set rs then expected_byte recon w i else d ! i))"
  using assms
proof (induction rs arbitrary: d)
  case Nil
  then show ?case by simp
next
  case (Cons r rs)
  then have r: "r < length recon" and rs: "set rs \<subseteq> {..<length recon}" by auto
  have "set [0..<w] \<subseteq> {..<w}" by auto
  from write_row_ok[OF r this, of d] obtain d1 where
    d1: "write_row recon w r [0..<w] d = Inr d1" "length d1 = length d"
      "\<forall>i<length d. d1 ! i =
         (if i div 4 \<in> (\<lambda>c. r * w + c) ` set [0..<w] then expected_byte recon w i else d ! i)"
    by blast
  have img: "(\<lambda>c. r * w + c) ` set [0..<w] = {p. p div w = r \<and> 0 < w}"
    using row_pixels[of r w] by (simp add: lessThan_atLeast0)
  from Cons.IH[OF rs, of d1] obtain d2 where
    d2: "write_rows recon w rs d1 = Inr d2" "length d2 = length d1"
      "\<forall>i<length d1. d2 ! i =
         (if 0 < w \<and> (i div 4) div w \<in> set rs then expected_byte recon w i else d1 ! i)"
    by blast
  have "write_rows recon w (r # rs) d = Inr d2" using d1 d2 by simp
  moreover have "length d2 = length d" using d1 d2 by simp
  moreover have "\<forall>i<length d. d2 ! i =
      (if 0 < w \<and> (i div 4) div w \<in> set (r # rs) then expected_byte recon w i else d ! i)"
    using d1 d2 unfolding img by auto
  ultimately show ?case by blast
qed

lemma write_raster_ok:
  assumes "h \<le> length recon"
  shows "\<exists>d. write_raster recon w h = Inr \<lparr>width = w, height = h, data = d\<rparr> \<and>
           length d = 4 * (w * h) \<and> (\<forall>i<4 * (w * h). d ! i = expected_byte recon w i)"
proof -
  have "set [0..<h] \<subseteq> {..<length recon}" using assms by auto
  from write_rows_ok[OF this, of w "replicate (4 * (w * h)) 0"] obtain d where
    d: "write_rows recon w [0..<h] (replicate (4 * (w * h)) 0) = Inr d"
       "length d = 4 * (w * h)"
       "\<forall>i<4 * (w * h). d ! i =
          (if 0 < w \<and> (i div 4) div w \<in> set [0..<h] then expected_byte recon w i
           else replicate (4 * (w * h)) 0 ! i)"
    by auto
  have "0 < w \<and> (i div 4) div w \<in> set [0..<h]" if "i < 4 * (w * h)" for i
  proof -
    have "i div 4 < w * h" using that by simp
    then have "0 < w" "(i div 4) div w < h"
      by (auto simp: less_mult_imp_div_less mult.commute intro: Nat.gr0I)
    then show ?thesis by simp
  qed
  then have "\<forall>i<4 * (w * h). d ! i = expected_byte recon w i" using d(3) by simp
  then show ?thesis using d by (simp add: write_raster_def)
qed

lemma unat_byte_of_int: "0 \<le> f \<Longrightarrow> f < 256 \<Longrightarrow> unat (of_int f :: 8 word) = nat f"
  by (simp add: unat_eq_nat_uint uint_word_of_int)

lemma ToUint8Clamp_round:
  assumes "0 \<le> y" "y \<le> 255"
  shows "\<bar>real (unat (ToUint8Clamp (Num y))) - y\<bar> \<le> 1 / 2"
    and "unat (ToUint8Clamp (Num y)) = nat (round y) \<or>
         (y = of_int \<lfloor>y\<rfloor> + 1 / 2 \<and> even \<lfloor>y\<rfloor> \<and> unat (ToUint8Clamp (Num y)) = nat \<lfloor>y\<rfloor>)"
proof -
  have f0: "0 \<le> \<lfloor>y\<rfloor>" using assms by simp
  have A: "\<bar>real (unat (ToUint8Clamp (Num y))) - y\<bar> \<le> 1 / 2 \<and> (unat (ToUint8Clamp (Num y)) = nat (round y) \<or>
         (y = of_int \<lfloor>y\<rfloor> + 1 / 2 \<and> even \<lfloor>y\<rfloor> \<and> unat (ToUint8Clamp (Num y)) = nat \<lfloor>y\<rfloor>))"
  proof (cases "y = 0 \<or> y = 255")
    case True
    then show ?thesis by (auto simp: ToUint8Clamp_def)
  next
    case False
    then have y: "0 < y" "y < 255" using assms by auto
    then have f255: "\<lfloor>y\<rfloor> < 255" by linarith
    have u: "unat (of_int \<lfloor>y\<rfloor> :: 8 word) = nat \<lfloor>y\<rfloor>"
            "unat (of_int (\<lfloor>y\<rfloor> + 1) :: 8 word) = nat (\<lfloor>y\<rfloor> + 1)"
      using f0 f255 by (intro unat_byte_of_int; linarith)+
    consider "y < of_int \<lfloor>y\<rfloor> + 1 / 2" | "of_int \<lfloor>y\<rfloor> + 1 / 2 < y" | "y = of_int \<lfloor>y\<rfloor> + 1 / 2"
      by linarith
    then show ?thesis
    proof cases
      case 1
      then have r: "round y = \<lfloor>y\<rfloor>" unfolding round_def by linarith
      have "ToUint8Clamp (Num y) = of_int \<lfloor>y\<rfloor>" using y 1 by (simp add: ToUint8Clamp_def Let_def)
      then show ?thesis using u r 1 f0 by (simp; linarith)
    next
      case 2
      then have r: "round y = \<lfloor>y\<rfloor> + 1" unfolding round_def by linarith
      have "ToUint8Clamp (Num y) = of_int (\<lfloor>y\<rfloor> + 1)" using y 2 by (simp add: ToUint8Clamp_def Let_def)
      then show ?thesis using u r 2 f0 by (simp; linarith)
    next
      case 3
      then have r: "round y = \<lfloor>y\<rfloor> + 1" unfolding round_def by linarith
      have c: "ToUint8Clamp (Num y) = (if even \<lfloor>y\<rfloor> then of_int \<lfloor>y\<rfloor> else of_int (\<lfloor>y\<rfloor> + 1))"
        using y 3 by (simp add: ToUint8Clamp_def Let_def)
      show ?thesis
      proof (cases "even \<lfloor>y\<rfloor>")
        case True
        then have n: "unat (ToUint8Clamp (Num y)) = nat \<lfloor>y\<rfloor>" using c u by simp
        have "real (nat \<lfloor>y\<rfloor>) = of_int \<lfloor>y\<rfloor>" using f0 by simp
        then have "\<bar>real (nat \<lfloor>y\<rfloor>) - y\<bar> \<le> 1 / 2" using 3 by linarith
        then show ?thesis using n True 3 by presburger
      next
        case False
        then have n: "unat (ToUint8Clamp (Num y)) = nat (round y)" using c u r by simp
        have "real (nat (\<lfloor>y\<rfloor> + 1)) = of_int \<lfloor>y\<rfloor> + 1" using f0 by simp
        then have "\<bar>real (nat (round y)) - y\<bar> \<le> 1 / 2" using 3 r by linarith
        then show ?thesis using n by presburger
      qed
    qed
  qed
  show "\<bar>real (unat (ToUint8Clamp (Num y))) - y\<bar> \<le> 1 / 2" using A by blast
  show "unat (ToUint8Clamp (Num y)) = nat (round y) \<or>
         (y = of_int \<lfloor>y\<rfloor> + 1 / 2 \<and> even \<lfloor>y\<rfloor> \<and> unat (ToUint8Clamp (Num y)) = nat \<lfloor>y\<rfloor>)" using A by blast
qed

lemma unat_byte_le: "unat (b :: 8 word) \<le> 255"
proof -
  have "unat b < 2 ^ LENGTH(8)" by (rule unsigned_less)
  then show ?thesis by simp
qed

lemma pix_idx: "j < 4 \<Longrightarrow> (p * 4 + j) div 4 = p \<and> (p * 4 + j) mod 4 = (j::nat)"
  by simp

lemma lum_of_Num:
  "nth_num (recon ! r) c = Num x \<Longrightarrow> lum_of recon r c = Num (min (max x 0) 255)"
  by (simp add: lum_of_def)

text \<open>
  Claim C1. For every reconstructed matrix with (at least) the \<open>h\<close> rows of the image, the
  raster writer succeeds and returns a raster of the image's width and height whose pixel
  \<open>(r, c)\<close> has R = G = B = the byte stored for \<open>min(max(recon[r][c], 0), 255)\<close> and
  A = 255. Every channel is a byte, hence an integer in \<open>[0, 255]\<close>, whatever the entry is
  (\<open>NaN\<close>, an infinity, a missing column). For a finite entry \<open>x\<close> the stored byte is
  within 1/2 of the clamped value: it is \<open>round\<close> of it, except that a tie under an even
  integer is rounded down to that integer (the typed array rounds half to even).
\<close>

theorem raster_writer_clamps_and_rounds:
  assumes "h \<le> length recon"
  shows "\<exists>out. write_raster recon w h = Inr out \<and> width out = w \<and> height out = h \<and>
           length (data out) = 4 * (w * h) \<and>
           (\<forall>r<h. \<forall>c<w.
              data out ! ((r * w + c) * 4) = ToUint8Clamp (lum_of recon r c) \<and>
              data out ! ((r * w + c) * 4 + 1) = ToUint8Clamp (lum_of recon r c) \<and>
              data out ! ((r * w + c) * 4 + 2) = ToUint8Clamp (lum_of recon r c) \<and>
              data out ! ((r * w + c) * 4 + 3) = 255 \<and>
              unat (ToUint8Clamp (lum_of recon r c)) \<le> 255 \<and>
              (\<forall>x. nth_num (recon ! r) c = Num x \<longrightarrow>
                 lum_of recon r c = Num (min (max x 0) 255) \<and>
                 \<bar>real (unat (ToUint8Clamp (lum_of recon r c))) - min (max x 0) 255\<bar> \<le> 1 / 2 \<and>
                 (unat (ToUint8Clamp (lum_of recon r c)) = nat (round (min (max x 0) 255)) \<or>
                  min (max x 0) 255 = of_int \<lfloor>min (max x 0) 255\<rfloor> + 1 / 2 \<and>
                  even \<lfloor>min (max x 0) 255\<rfloor> \<and>
                  unat (ToUint8Clamp (lum_of recon r c)) = nat \<lfloor>min (max x 0) 255\<rfloor>)))"
proof -
  from write_raster_ok[OF assms, of w] obtain d where
    d: "write_raster recon w h = Inr \<lparr>width = w, height = h, data = d\<rparr>"
       "length d = 4 * (w * h)" "\<forall>i<4 * (w * h). d ! i = expected_byte recon w i"
    by blast
  have px: "d ! ((r * w + c) * 4) = ToUint8Clamp (lum_of recon r c) \<and>
            d ! ((r * w + c) * 4 + 1) = ToUint8Clamp (lum_of recon r c) \<and>
            d ! ((r * w + c) * 4 + 2) = ToUint8Clamp (lum_of recon r c) \<and>
            d ! ((r * w + c) * 4 + 3) = 255"
    if rc: "r < h" "c < w" for r c
  proof -
    have "r * w + c < w * h"
    proof -
      have "r * w + c < r * w + w" using rc by simp
      also have "\<dots> = (r + 1) * w" by simp
      also have "\<dots> \<le> h * w" using rc by (intro mult_le_mono1) simp
      finally show ?thesis by (simp add: mult.commute)
    qed
    then have b: "(r * w + c) * 4 + 3 < 4 * (w * h)" by simp
    have e: "expected_byte recon w ((r * w + c) * 4 + j) =
             (if j = 3 then 255 else ToUint8Clamp (lum_of recon r c))" if "j < 4" for j
    proof -
      have "((r * w + c) * 4 + j) div 4 = r * w + c" "((r * w + c) * 4 + j) mod 4 = j"
        using pix_idx[OF that, of "r * w + c"] by blast+
      then show ?thesis using rc unfolding expected_byte_def by simp
    qed
    have "d ! ((r * w + c) * 4 + j) = (if j = 3 then 255 else ToUint8Clamp (lum_of recon r c))"
      if "j < 4" for j
      using d(3) b e[OF that] that by simp
    from this[of 0] this[of 1] this[of 2] this[of 3] show ?thesis by simp
  qed
  have rd: "lum_of recon r c = Num (min (max x 0) 255) \<and>
        \<bar>real (unat (ToUint8Clamp (lum_of recon r c))) - min (max x 0) 255\<bar> \<le> 1 / 2 \<and>
        (unat (ToUint8Clamp (lum_of recon r c)) = nat (round (min (max x 0) 255)) \<or>
         min (max x 0) 255 = of_int \<lfloor>min (max x 0) 255\<rfloor> + 1 / 2 \<and>
         even \<lfloor>min (max x 0) 255\<rfloor> \<and>
         unat (ToUint8Clamp (lum_of recon r c)) = nat \<lfloor>min (max x 0) 255\<rfloor>)"
    if "nth_num (recon ! r) c = Num x" for r c x
  proof -
    have l: "lum_of recon r c = Num (min (max x 0) 255)" by (rule lum_of_Num[OF that])
    have "0 \<le> min (max x 0) 255" "min (max x 0) 255 \<le> 255" by simp_all
    from ToUint8Clamp_round[OF this] show ?thesis unfolding l by blast
  qed
  define out where "out = \<lparr>width = w, height = h, data = d\<rparr>"
  have o: "write_raster recon w h = Inr out" "width out = w" "height out = h"
    "length (data out) = 4 * (w * h)"
    by (simp_all add: out_def d)
  have od: "data out = d" by (simp add: out_def)
  have "\<forall>r<h. \<forall>c<w.
      data out ! ((r * w + c) * 4) = ToUint8Clamp (lum_of recon r c) \<and>
      data out ! ((r * w + c) * 4 + 1) = ToUint8Clamp (lum_of recon r c) \<and>
      data out ! ((r * w + c) * 4 + 2) = ToUint8Clamp (lum_of recon r c) \<and>
      data out ! ((r * w + c) * 4 + 3) = 255 \<and>
      unat (ToUint8Clamp (lum_of recon r c)) \<le> 255 \<and>
      (\<forall>x. nth_num (recon ! r) c = Num x \<longrightarrow>
         lum_of recon r c = Num (min (max x 0) 255) \<and>
         \<bar>real (unat (ToUint8Clamp (lum_of recon r c))) - min (max x 0) 255\<bar> \<le> 1 / 2 \<and>
         (unat (ToUint8Clamp (lum_of recon r c)) = nat (round (min (max x 0) 255)) \<or>
          min (max x 0) 255 = of_int \<lfloor>min (max x 0) 255\<rfloor> + 1 / 2 \<and>
          even \<lfloor>min (max x 0) 255\<rfloor> \<and>
          unat (ToUint8Clamp (lum_of recon r c)) = nat \<lfloor>min (max x 0) 255\<rfloor>))"
    unfolding od using px rd unat_byte_le by blast
  with o show ?thesis by blast
qed

theorem raster_writer_clamps_and_rounds_witness:
  "\<exists>out. write_raster [[Num (- 5), PInf], [NaN, Num (5 / 2)]] 2 2 = Inr out \<and>
         out = \<lparr>width = 2, height = 2,
                 data = [0, 0, 0, 255, 255, 255, 255, 255, 0, 0, 0, 255, 2, 2, 2, 255]\<rparr> \<and>
         data out ! 12 = ToUint8Clamp (lum_of [[Num (- 5), PInf], [NaN, Num (5 / 2)]] 1 1) \<and>
         lum_of [[Num (- 5), PInf], [NaN, Num (5 / 2)]] 1 1 = Num (5 / 2)"
proof -
  let ?recon = "[[Num (- 5), PInf], [NaN, Num (5 / 2)]]"
  have h: "2 \<le> length ?recon" by simp
  from raster_writer_clamps_and_rounds[OF h, of 2] obtain out where
    out: "write_raster ?recon 2 2 = Inr out"
    and px: "\<forall>r<2. \<forall>c<2. data out ! ((r * 2 + c) * 4) = ToUint8Clamp (lum_of ?recon r c)"
    by blast
  have v: "write_raster ?recon 2 2 = Inr \<lparr>width = 2, height = 2,
              data = [0, 0, 0, 255, 255, 255, 255, 255, 0, 0, 0, 255, 2, 2, 2, 255]\<rparr>"
    by code_simp
  have "data out ! ((1 * 2 + 1) * 4) = ToUint8Clamp (lum_of ?recon 1 1)"
    using px[rule_format, of 1 1] by simp
  then have p: "data out ! 12 = ToUint8Clamp (lum_of ?recon 1 1)" by simp
  have l: "lum_of ?recon 1 1 = Num (5 / 2)" by (simp add: lum_of_def nth_num_def)
  show ?thesis using out v p l by simp
qed

section \<open>Shapes of the matrices\<close>

lemma length_gray: "length (gray ras) = height ras"
  by (simp add: gray_def)

lemma gray_row: "r < height ras \<Longrightarrow> gray ras ! r = map (\<lambda>c. gray_entry ras r c) [0..<width ras]"
  by (simp add: gray_def)

lemma gray_rows_length: "row \<in> set (gray ras) \<Longrightarrow> length row = width ras"
  by (auto simp: gray_def)

lemma gray_nth: "r < height ras \<Longrightarrow> c < width ras \<Longrightarrow> gray ras ! r ! c = gray_entry ras r c"
  by (simp add: gray_row)

lemma pixel_in_range:
  assumes "r < h" "c < (w::nat)"
  shows "(r * w + c) * 4 + 3 < 4 * (w * h)"
proof -
  have "r * w + c < r * w + w" using assms by simp
  also have "\<dots> = (r + 1) * w" by simp
  also have "\<dots> \<le> h * w" using assms by (intro mult_le_mono1) simp
  finally have "r * w + c < w * h" by (simp add: mult.commute)
  then show ?thesis by simp
qed

lemma gray_entry_ignores_alpha:
  assumes "length d' = length (data ras)"
    and "\<forall>i<length d'. i mod 4 \<noteq> 3 \<longrightarrow> d' ! i = data ras ! i"
  shows "gray_entry (ras\<lparr>data := d'\<rparr>) r c = gray_entry ras r c"
proof -
  have b: "byte_at d' ((r * width ras + c) * 4 + j) = byte_at (data ras) ((r * width ras + c) * 4 + j)"
    if "j < 3" for j
  proof -
    have "((r * width ras + c) * 4 + j) mod 4 = j"
      using that pix_idx[of j "r * width ras + c"] by simp
    then have "((r * width ras + c) * 4 + j) mod 4 \<noteq> 3" using that by simp
    then show ?thesis using assms unfolding byte_at_def by simp
  qed
  from b[of 0] b[of 1] b[of 2] show ?thesis
    unfolding gray_entry_def Let_def by simp
qed

lemma rect_gray: "rect (gray ras) (height ras) (width ras)"
  by (simp add: rect_def gray_def list_all_iff)

lemma rect_nth: "rect x m n \<Longrightarrow> i < m \<Longrightarrow> length (x ! i) = n"
  by (simp add: rect_def list_all_length)

lemma transpose_rect:
  assumes "rect x m n" "0 < m"
  shows "numeric_transpose x = Inr (map (\<lambda>j. map (\<lambda>i. x ! i ! j) [0..<m]) [0..<n])"
proof -
  from assms obtain x0 xs where x: "x = x0 # xs" by (cases x) (auto simp: rect_def)
  have n: "length x0 = n" using rect_nth[OF assms(1), of 0] assms(2) x by simp
  have "nth_num (x ! i) j = x ! i ! j" if "i < m" "j < n" for i j
    using rect_nth[OF assms(1) that(1)] that(2) by (simp add: nth_num_def)
  then have "map (\<lambda>j. map (\<lambda>i. nth_num (x ! i) j) [0..<m]) [0..<n]
           = map (\<lambda>j. map (\<lambda>i. x ! i ! j) [0..<m]) [0..<n]"
    by simp
  moreover have "length x = m" using assms by (simp add: rect_def)
  ultimately show ?thesis using x n by (simp add: numeric_transpose_def)
qed

lemma transpose_dims:
  assumes "rect x m n" "0 < m" "numeric_transpose x = Inr t"
  shows "rect t n m \<and> (\<forall>j<n. \<forall>i<m. t ! j ! i = x ! i ! j)"
  using assms(3) unfolding transpose_rect[OF assms(1,2)]
  by (auto simp: rect_def list_all_iff)

lemma transpose_twice:
  assumes "rect x m n" "0 < m" "0 < n"
  shows "\<exists>t. numeric_transpose x = Inr t \<and> rect t n m \<and> numeric_transpose t = Inr x"
proof -
  let ?t = "map (\<lambda>j. map (\<lambda>i. x ! i ! j) [0..<m]) [0..<n]"
  have t: "numeric_transpose x = Inr ?t" by (rule transpose_rect[OF assms(1,2)])
  have rt: "rect ?t n m" using transpose_dims[OF assms(1,2) t] by blast
  have "map (\<lambda>j. map (\<lambda>i. ?t ! i ! j) [0..<n]) [0..<m] = x"
  proof (rule nth_equalityI)
    show "length (map (\<lambda>j. map (\<lambda>i. ?t ! i ! j) [0..<n]) [0..<m]) = length x"
      using assms(1) by (simp add: rect_def)
  next
    fix i assume "i < length (map (\<lambda>j. map (\<lambda>i. ?t ! i ! j) [0..<n]) [0..<m])"
    then have i: "i < m" by simp
    have "map (\<lambda>j. ?t ! j ! i) [0..<n] = x ! i"
      using rect_nth[OF assms(1) i] i by (intro nth_equalityI) simp_all
    then show "map (\<lambda>j. map (\<lambda>i. ?t ! i ! j) [0..<n]) [0..<m] ! i = x ! i"
      using i by simp
  qed
  then have "numeric_transpose ?t = Inr x"
    using transpose_rect[OF rt assms(3)] by simp
  with t rt show ?thesis by blast
qed

lemma prepare_tall:
  assumes "width ras \<le> height ras" "0 < height ras"
  shows "prepare ras = Inr (gray ras, height ras, width ras)"
proof -
  have "gray ras \<noteq> []" using assms(2) length_0_conv[of "gray ras"] by (simp add: gray_def)
  then obtain row0 rest where g: "gray ras = row0 # rest" by (cases "gray ras") auto
  then have "row0 \<in> set (gray ras)" by simp
  then have "length row0 = width ras" by (auto simp: gray_def)
  moreover have "length (gray ras) = height ras" by (simp add: gray_def)
  ultimately show ?thesis
    using assms(1) g by (simp add: prepare_def orient_forward_def tall_def)
qed

lemma prepare_wide:
  assumes "height ras < width ras" "0 < height ras"
  shows "\<exists>mat. prepare ras = Inr (mat, width ras, height ras) \<and>
           numeric_transpose (gray ras) = Inr mat \<and> rect mat (width ras) (height ras) \<and>
           numeric_transpose mat = Inr (gray ras)"
proof -
  have w: "0 < width ras" using assms by simp
  from transpose_twice[OF rect_gray assms(2) w] obtain t where
    t: "numeric_transpose (gray ras) = Inr t" "rect t (width ras) (height ras)"
       "numeric_transpose t = Inr (gray ras)" by blast
  from t(2) w obtain row0 rest where c: "t = row0 # rest" by (cases t) (auto simp: rect_def)
  have "length row0 = height ras" using rect_nth[OF t(2), of 0] w c by simp
  moreover have "length t = width ras" using t(2) by (simp add: rect_def)
  ultimately have "prepare ras = Inr (t, width ras, height ras)"
    using assms(1) t(1) c by (simp add: prepare_def orient_forward_def tall_def)
  with t show ?thesis by blast
qed

lemma prepare_empty:
  assumes "height ras = 0"
  shows "prepare ras = Inl TypeError"
  using assms
  by (simp add: prepare_def orient_forward_def tall_def gray_def numeric_transpose_def)

lemma prepare_dims:
  assumes "prepare ras = Inr (mat, m, n)"
  shows "m = max (height ras) (width ras) \<and> n = min (height ras) (width ras) \<and>
         0 < height ras \<and> rect mat m n \<and> 0 < m"
proof -
  have h: "0 < height ras" using assms prepare_empty[of ras] by (cases "height ras = 0") auto
  show ?thesis
  proof (cases "width ras \<le> height ras")
    case True
    then show ?thesis using assms h prepare_tall[OF True h] rect_gray[of ras] by auto
  next
    case False
    then have "height ras < width ras" by simp
    from prepare_wide[OF this h] show ?thesis using assms h False by auto
  qed
qed

lemma compress_core_prepare_error:
  "prepare ras = Inl e \<Longrightarrow> compress_core svd ras k = Inl e"
  by (simp add: compress_core_def)

lemma kEff_of_above: "int (min m n) \<le> k \<Longrightarrow> kEff_of k m n = int (min m n)"
  by (simp add: kEff_of_def Let_def)

lemma compress_core_kEff:
  assumes "\<And>mat m n. prepare ras = Inr (mat, m, n) \<Longrightarrow> kEff_of k m n = kEff_of k' m n"
  shows "compress_core svd ras k = compress_core svd ras k'"
proof (cases "prepare ras")
  case (Inl e)
  then show ?thesis by (simp add: compress_core_def)
next
  case (Inr p)
  obtain mat m n where p: "p = (mat, m, n)" by (cases p)
  have pr: "prepare ras = Inr (mat, m, n)" using Inr p by simp
  have eq: "kEff_of k m n = kEff_of k' m n" by (rule assms[OF pr])
  show ?thesis unfolding compress_core_def pr Let_def sum.case prod.case eq by (rule refl)
qed



section \<open>Dimensions of the output\<close>

lemma write_pixel_length: "write_pixel recon w r c d = Inr d' \<Longrightarrow> length d' = length d"
  by (auto simp: write_pixel_def Let_def length_store split: if_splits)

lemma write_row_length: "write_row recon w r cs d = Inr d' \<Longrightarrow> length d' = length d"
proof (induction cs arbitrary: d)
  case Nil
  then show ?case by simp
next
  case (Cons c cs)
  then show ?case
    by (cases "write_pixel recon w r c d") (auto dest: write_pixel_length)
qed

lemma write_rows_length: "write_rows recon w rs d = Inr d' \<Longrightarrow> length d' = length d"
proof (induction rs arbitrary: d)
  case Nil
  then show ?case by simp
next
  case (Cons r rs)
  then show ?case
    by (cases "write_row recon w r [0..<w] d") (auto dest: write_row_length)
qed

lemma write_raster_dims:
  assumes "write_raster recon w h = Inr out"
  shows "width out = w \<and> height out = h \<and> length (data out) = 4 * (w * h)"
proof (cases "write_rows recon w [0..<h] (replicate (4 * (w * h)) 0)")
  case (Inl e)
  then show ?thesis using assms by (simp add: write_raster_def)
next
  case (Inr d)
  then have "length d = 4 * (w * h)" using write_rows_length[OF Inr] by simp
  then show ?thesis using assms Inr by (auto simp: write_raster_def)
qed

lemma compress_core_writes:
  assumes "compress_core svd ras k = Inr out"
  shows "\<exists>recon. write_raster recon (width ras) (height ras) = Inr out"
  using assms unfolding compress_core_def
  by (auto simp: Let_def split: sum.splits prod.splits)

text \<open>
  Claim C8. Whatever the decomposition routine, the raster and the requested \<open>k\<close>, a run of
  the core that succeeds returns a raster with the width and the height of the input raster
  (and \<open>4 \<cdot> W \<cdot> H\<close> bytes), also when the matrix was transposed (\<open>W > H\<close>) and when \<open>k\<close>
  exceeds \<open>min(H, W)\<close>.
\<close>

theorem output_dimensions_preserved:
  assumes "compress_core svd ras k = Inr out"
  shows "width out = width ras \<and> height out = height ras \<and> well_formed out"
proof -
  from compress_core_writes[OF assms] obtain recon where
    "write_raster recon (width ras) (height ras) = Inr out" by blast
  from write_raster_dims[OF this] show ?thesis by (simp add: well_formed_def)
qed

theorem output_dimensions_preserved_witness:
  "compress_core svd_trivial \<lparr>width = 2, height = 1, data = [10, 10, 10, 0, 20, 20, 20, 0]\<rparr> 9999
     = Inr \<lparr>width = 2, height = 1, data = [10, 10, 10, 255, 20, 20, 20, 255]\<rparr> \<and>
   \<not> tall \<lparr>width = 2, height = 1, data = [10, 10, 10, 0, 20, 20, 20, 0]\<rparr> \<and>
   well_formed \<lparr>width = 2, height = 1, data = [10, 10, 10, 255, 20, 20, 20, 255]\<rparr>"
proof -
  let ?ras = "\<lparr>width = 2, height = 1, data = [10, 10, 10, 0, 20, 20, 20, 0]\<rparr>"
  let ?out = "\<lparr>width = 2, height = 1, data = [10, 10, 10, 255, 20, 20, 20, 255]\<rparr>"
  have c: "compress_core svd_trivial ?ras 9999 = Inr ?out" by code_simp
  have "well_formed ?out" using output_dimensions_preserved[OF c] by blast
  moreover have "\<not> tall ?ras" by (simp add: tall_def)
  ultimately show ?thesis using c by blast
qed

section \<open>Properties of the generation counter\<close>

text \<open>
  Claim C10. When no file has been chosen, a call of \<open>compressImage\<close> returns at line 36:
  the state is unchanged (the generation counter, the compressed URL and size, the
  in-progress flag) and no invocation is started.
\<close>

theorem compress_without_file_is_noop:
  assumes "chosen_file s = None"
  shows "compressImage_enter kv s = (s, None) \<and> step (Compress kv) (s, pend) = (s, pend)"
  using assms by (simp add: compressImage_enter_def)

theorem compress_without_file_is_noop_witness:
  "chosen_file initial_app = None \<and>
   compressImage_enter 20 initial_app = (initial_app, None) \<and>
   step (Compress 20) (initial_app, []) = (initial_app, [])"
proof -
  have n: "chosen_file initial_app = None" by (simp add: initial_app_def)
  from compress_without_file_is_noop[OF n, of 20 "[]"] n show ?thesis by blast
qed

lemma genRef_publish: "genRef (compressImage_publish call sz s) = genRef s"
  by (simp add: compressImage_publish_def)

lemma enter_with_file:
  assumes "chosen_file s \<noteq> None"
  shows "compressImage_enter kv s =
           (s\<lparr>genRef := genRef s + 1, isCompressing := True\<rparr>,
            Some \<lparr>myGen = genRef s + 1, kValue = kv\<rparr>)"
  using assms by (simp add: compressImage_enter_def Let_def)

lemma sorted_gens_filter:
  "sorted_wrt (<) (map myGen pend) \<Longrightarrow> sorted_wrt (<) (map myGen (filter P pend))"
  by (simp add: sorted_wrt_map sorted_wrt_filter)

lemma step_invariant:
  assumes "gen_invariant c"
  shows "gen_invariant (step e c)"
proof -
  obtain s pend where c: "c = (s, pend)" by (cases c)
  from assms have srt: "sorted_wrt (<) (map myGen pend)"
    and le: "\<forall>i\<in>set pend. myGen i \<le> genRef s"
    by (simp_all add: gen_invariant_def c list_all_iff)
  show ?thesis
  proof (cases e)
    case (Upload f)
    then show ?thesis using srt le
      by (simp add: c gen_invariant_def list_all_iff handleUpload_def)
  next
    case (Compress kv)
    show ?thesis
    proof (cases "chosen_file s = None")
      case True
      then show ?thesis using assms Compress by (simp add: c compressImage_enter_def)
    next
      case False
      have "sorted_wrt (<) (map myGen (pend @ [\<lparr>myGen = genRef s + 1, kValue = kv\<rparr>]))"
        using srt le by (auto simp: sorted_wrt_append)
      moreover have "\<forall>i\<in>set (pend @ [\<lparr>myGen = genRef s + 1, kValue = kv\<rparr>]).
          myGen i \<le> genRef s + 1"
        using le by auto
      ultimately show ?thesis
        using Compress enter_with_file[OF False, of kv]
        by (simp add: c gen_invariant_def list_all_iff)
    qed
  next
    case (Settle g sz)
    show ?thesis
    proof (cases "find (\<lambda>i. myGen i = g) pend")
      case None
      then show ?thesis using assms Settle by (simp add: c)
    next
      case (Some call)
      then show ?thesis using Settle srt le sorted_gens_filter[OF srt]
        by (simp add: c gen_invariant_def list_all_iff genRef_publish)
    qed
  next
    case (Throw g)
    then show ?thesis using srt le sorted_gens_filter[OF srt]
      by (simp add: c gen_invariant_def list_all_iff)
  qed
qed

lemma run_invariant: "gen_invariant c \<Longrightarrow> gen_invariant (run evs c)"
  by (induction evs arbitrary: c) (simp_all add: step_invariant)

lemma publish_cases:
  "(genRef t = myGen call \<longrightarrow>
      compressedURL (compressImage_publish call sz t) =
        ResultURL \<lparr>made_by = myGen call, made_for_k = kValue call, blob_size = sz\<rparr> \<and>
      compSize (compressImage_publish call sz t) = sz) \<and>
   (genRef t \<noteq> myGen call \<longrightarrow> compressImage_publish call sz t = t)"
  by (simp add: compressImage_publish_def)

lemma arrivals_publish_latest_only:
  assumes "list_all is_arrival rest"
  shows "genRef (fst (run rest (s, pend))) = genRef s \<and>
         set (snd (run rest (s, pend))) \<subseteq> set pend \<and>
         ((compressedURL (fst (run rest (s, pend))) = compressedURL s \<and>
           compSize (fst (run rest (s, pend))) = compSize s) \<or>
          (\<exists>call\<in>set pend. myGen call = genRef s \<and>
             shows_result_of (fst (run rest (s, pend))) call))"
  using assms
proof (induction rest arbitrary: s pend)
  case Nil
  then show ?case by simp
next
  case (Cons e rest)
  then have rest: "list_all is_arrival rest" and e: "is_arrival e" by simp_all
  obtain s1 pend1 where st: "step e (s, pend) = (s1, pend1)" by (cases "step e (s, pend)")
  have one: "genRef s1 = genRef s \<and> set pend1 \<subseteq> set pend \<and>
      ((compressedURL s1 = compressedURL s \<and> compSize s1 = compSize s) \<or>
       (\<exists>call\<in>set pend. myGen call = genRef s \<and> shows_result_of s1 call))"
  proof (cases e)
    case (Upload f)
    then show ?thesis using e by simp
  next
    case (Compress kv)
    then show ?thesis using e by simp
  next
    case (Settle g sz)
    show ?thesis
    proof (cases "find (\<lambda>i. myGen i = g) pend")
      case None
      then show ?thesis using st Settle by auto
    next
      case (Some call)
      then have mem: "call \<in> set pend" and g: "myGen call = g"
        by (auto simp: find_Some_iff)
      have s1: "s1 = compressImage_publish call sz s" and p1: "pend1 = filter (\<lambda>i. myGen i \<noteq> g) pend"
        using st Settle Some by simp_all
      show ?thesis
      proof (cases "genRef s = myGen call")
        case True
        then have "shows_result_of s1 call"
          unfolding shows_result_of_def s1 using publish_cases[of s call sz] by blast
        then show ?thesis using True mem s1 p1 by (auto simp: genRef_publish)
      next
        case False
        then have "s1 = s" unfolding s1 using publish_cases[of s call sz] by blast
        then show ?thesis using p1 by auto
      qed
    qed
  next
    case (Throw g)
    then show ?thesis using st by auto
  qed
  from Cons.IH[OF rest, of s1 pend1] have ih:
    "genRef (fst (run rest (s1, pend1))) = genRef s1 \<and>
     set (snd (run rest (s1, pend1))) \<subseteq> set pend1 \<and>
     ((compressedURL (fst (run rest (s1, pend1))) = compressedURL s1 \<and>
       compSize (fst (run rest (s1, pend1))) = compSize s1) \<or>
      (\<exists>call\<in>set pend1. myGen call = genRef s1 \<and>
         shows_result_of (fst (run rest (s1, pend1))) call))" .
  have r: "run (e # rest) (s, pend) = run rest (s1, pend1)" using st by simp
  have g: "genRef (fst (run rest (s1, pend1))) = genRef s" using one ih by simp
  have sub: "set (snd (run rest (s1, pend1))) \<subseteq> set pend" using one ih by blast
  have vis: "(compressedURL (fst (run rest (s1, pend1))) = compressedURL s \<and>
           compSize (fst (run rest (s1, pend1))) = compSize s) \<or>
          (\<exists>call\<in>set pend. myGen call = genRef s \<and>
             shows_result_of (fst (run rest (s1, pend1))) call)"
  proof (cases "\<exists>call\<in>set pend1. myGen call = genRef s1 \<and>
         shows_result_of (fst (run rest (s1, pend1))) call")
    case True
    then obtain call where "call \<in> set pend1" "myGen call = genRef s1"
      "shows_result_of (fst (run rest (s1, pend1))) call" by blast
    then have "call \<in> set pend" "myGen call = genRef s"
      "shows_result_of (fst (run rest (s1, pend1))) call" using one by auto
    then show ?thesis by blast
  next
    case False
    then have same: "compressedURL (fst (run rest (s1, pend1))) = compressedURL s1"
      "compSize (fst (run rest (s1, pend1))) = compSize s1" using ih by blast+
    from one have "(compressedURL s1 = compressedURL s \<and> compSize s1 = compSize s) \<or>
       (\<exists>call\<in>set pend. myGen call = genRef s \<and> shows_result_of s1 call)" by blast
    then show ?thesis
    proof
      assume "compressedURL s1 = compressedURL s \<and> compSize s1 = compSize s"
      then show ?thesis using same by simp
    next
      assume "\<exists>call\<in>set pend. myGen call = genRef s \<and> shows_result_of s1 call"
      then obtain call where c: "call \<in> set pend" "myGen call = genRef s" "shows_result_of s1 call"
        by blast
      then have "shows_result_of (fst (run rest (s1, pend1))) call"
        using same unfolding shows_result_of_def by simp
      then show ?thesis using c by blast
    qed
  qed
  show ?case unfolding r using g sub vis by blast
qed

lemma two_submissions:
  assumes f: "chosen_file s \<noteq> None"
  shows "run [Compress k1, Compress k2] (s, pend) =
           (s\<lparr>genRef := genRef s + 2, isCompressing := True\<rparr>,
            pend @ [\<lparr>myGen = genRef s + 1, kValue = k1\<rparr>, \<lparr>myGen = genRef s + 2, kValue = k2\<rparr>])"
proof -
  let ?s1 = "s\<lparr>genRef := genRef s + 1, isCompressing := True\<rparr>"
  have f1: "chosen_file ?s1 \<noteq> None" using f by simp
  have "step (Compress k1) (s, pend) = (?s1, pend @ [\<lparr>myGen = genRef s + 1, kValue = k1\<rparr>])"
    using enter_with_file[OF f, of k1] by simp
  moreover have "step (Compress k2) (?s1, pend @ [\<lparr>myGen = genRef s + 1, kValue = k1\<rparr>]) =
      (s\<lparr>genRef := genRef s + 2, isCompressing := True\<rparr>,
       pend @ [\<lparr>myGen = genRef s + 1, kValue = k1\<rparr>, \<lparr>myGen = genRef s + 2, kValue = k2\<rparr>])"
    using enter_with_file[OF f1, of k2] by simp
  ultimately show ?thesis by simp
qed

lemma later_submission_wins:
  assumes f: "chosen_file s \<noteq> None" and i: "gen_invariant (s, pend)"
    and a: "list_all is_arrival rest"
  shows "(compressedURL (fst (run (Compress k1 # Compress k2 # rest) (s, pend))) = compressedURL s \<and>
          compSize (fst (run (Compress k1 # Compress k2 # rest) (s, pend))) = compSize s) \<or>
         shows_result_of (fst (run (Compress k1 # Compress k2 # rest) (s, pend)))
           \<lparr>myGen = genRef s + 2, kValue = k2\<rparr>"
proof -
  let ?s2 = "s\<lparr>genRef := genRef s + 2, isCompressing := True\<rparr>"
  let ?c1 = "\<lparr>myGen = genRef s + 1, kValue = k1\<rparr>"
  let ?c2 = "\<lparr>myGen = genRef s + 2, kValue = k2\<rparr>"
  let ?fin = "fst (run rest (?s2, pend @ [?c1, ?c2]))"
  have r: "run (Compress k1 # Compress k2 # rest) (s, pend) = run rest (?s2, pend @ [?c1, ?c2])"
    using two_submissions[OF f, of k1 k2 pend] by simp
  from i have le: "\<forall>c\<in>set pend. myGen c \<le> genRef s"
    by (simp add: gen_invariant_def list_all_iff)
  from arrivals_publish_latest_only[OF a, of ?s2 "pend @ [?c1, ?c2]"]
  have "(compressedURL ?fin = compressedURL ?s2 \<and> compSize ?fin = compSize ?s2) \<or>
        (\<exists>call\<in>set (pend @ [?c1, ?c2]). myGen call = genRef ?s2 \<and> shows_result_of ?fin call)"
    by blast
  then show ?thesis
  proof
    assume "compressedURL ?fin = compressedURL ?s2 \<and> compSize ?fin = compSize ?s2"
    then show ?thesis unfolding r by simp
  next
    assume "\<exists>call\<in>set (pend @ [?c1, ?c2]). myGen call = genRef ?s2 \<and> shows_result_of ?fin call"
    then obtain call where c0: "call \<in> set (pend @ [?c1, ?c2])" "myGen call = genRef ?s2"
      "shows_result_of ?fin call" by blast
    have c: "call \<in> set (pend @ [?c1, ?c2])" "myGen call = genRef s + 2"
      "shows_result_of ?fin call" using c0 by simp_all
    have "call = ?c2"
    proof (cases "call \<in> set pend")
      case True
      then have "myGen call \<le> genRef s" using le by blast
      then show ?thesis using c(2) by simp
    next
      case False
      then have "call = ?c1 \<or> call = ?c2" using c(1) by simp
      then show ?thesis using c(2) by auto
    qed
    then show ?thesis unfolding r using c(3) by simp
  qed
qed

text \<open>
  Claim C5. A call of \<open>compressImage\<close> with a file takes the next value of the generation
  counter as its tag, so the suspended invocations carry strictly increasing tags, none
  above the counter, in every run. When the blob of an invocation arrives, it is published
  (compressed URL and size) if its tag equals the counter at that moment, and the state is
  left unchanged otherwise. Hence after two calls in a row on the same image, with \<open>k1\<close>
  and then \<open>k2\<close>, and any arrivals in any order afterwards, the visible output is either
  still the earlier one or the result of the second call; never that of the first call.
\<close>

theorem stale_results_discarded:
  "(\<forall>kv t. chosen_file t \<noteq> None \<longrightarrow>
      (\<exists>t' call. compressImage_enter kv t = (t', Some call) \<and>
         myGen call = genRef t + 1 \<and> kValue call = kv \<and> genRef t' = myGen call)) \<and>
   (\<forall>evs c. gen_invariant c \<longrightarrow> gen_invariant (run evs c)) \<and>
   (\<forall>call sz t.
      (genRef t = myGen call \<longrightarrow>
         compressedURL (compressImage_publish call sz t) =
           ResultURL \<lparr>made_by = myGen call, made_for_k = kValue call, blob_size = sz\<rparr> \<and>
         compSize (compressImage_publish call sz t) = sz) \<and>
      (genRef t \<noteq> myGen call \<longrightarrow> compressImage_publish call sz t = t)) \<and>
   (\<forall>s pend k1 k2 rest.
      chosen_file s \<noteq> None \<and> gen_invariant (s, pend) \<and> list_all is_arrival rest \<longrightarrow>
      (compressedURL (fst (run (Compress k1 # Compress k2 # rest) (s, pend))) = compressedURL s \<and>
       compSize (fst (run (Compress k1 # Compress k2 # rest) (s, pend))) = compSize s) \<or>
      shows_result_of (fst (run (Compress k1 # Compress k2 # rest) (s, pend)))
        \<lparr>myGen = genRef s + 2, kValue = k2\<rparr>)"
proof (intro conjI allI impI)
  fix kv and t :: app assume "chosen_file t \<noteq> None"
  from enter_with_file[OF this, of kv]
  show "\<exists>t' call. compressImage_enter kv t = (t', Some call) \<and>
         myGen call = genRef t + 1 \<and> kValue call = kv \<and> genRef t' = myGen call"
    by simp
next
  fix evs c assume "gen_invariant c"
  then show "gen_invariant (run evs c)" by (rule run_invariant)
next
  fix call :: invocation and sz and t :: app assume "genRef t = myGen call"
  then show "compressedURL (compressImage_publish call sz t) =
           ResultURL \<lparr>made_by = myGen call, made_for_k = kValue call, blob_size = sz\<rparr>"
    using publish_cases[of t call sz] by blast
next
  fix call :: invocation and sz and t :: app assume "genRef t = myGen call"
  then show "compSize (compressImage_publish call sz t) = sz"
    using publish_cases[of t call sz] by blast
next
  fix call :: invocation and sz and t :: app assume "genRef t \<noteq> myGen call"
  then show "compressImage_publish call sz t = t"
    using publish_cases[of t call sz] by blast
next
  fix s :: app and pend k1 k2 rest
  assume "chosen_file s \<noteq> None \<and> gen_invariant (s, pend) \<and> list_all is_arrival rest"
  then show "(compressedURL (fst (run (Compress k1 # Compress k2 # rest) (s, pend))) = compressedURL s \<and>
       compSize (fst (run (Compress k1 # Compress k2 # rest) (s, pend))) = compSize s) \<or>
      shows_result_of (fst (run (Compress k1 # Compress k2 # rest) (s, pend)))
        \<lparr>myGen = genRef s + 2, kValue = k2\<rparr>"
    using later_submission_wins by blast
qed

theorem stale_results_discarded_witness:
  "chosen_file (handleUpload 1000 initial_app) \<noteq> None \<and>
   gen_invariant (handleUpload 1000 initial_app, []) \<and>
   fst (run [Compress 5, Compress 50, Settle 2 700, Settle 1 300] (handleUpload 1000 initial_app, []))
     = (handleUpload 1000 initial_app)
         \<lparr>genRef := 2, isCompressing := False, compSize := 700,
          compressedURL := ResultURL \<lparr>made_by = 2, made_for_k = 50, blob_size = 700\<rparr>\<rparr> \<and>
   shows_result_of
     (fst (run [Compress 5, Compress 50, Settle 2 700, Settle 1 300] (handleUpload 1000 initial_app, [])))
     \<lparr>myGen = 2, kValue = 50\<rparr>"
proof -
  let ?s = "handleUpload 1000 initial_app"
  let ?evs = "[Compress 5, Compress 50, Settle 2 700, Settle 1 300]"
  have f: "chosen_file ?s \<noteq> None" by (simp add: handleUpload_def)
  have i: "gen_invariant (?s, [])" by (simp add: gen_invariant_def)
  have a: "list_all is_arrival [Settle 2 700, Settle 1 300]" by simp
  have u: "compressedURL ?s = NoURL" "genRef ?s = 0"
    by (simp_all add: handleUpload_def initial_app_def)
  define st where "st = fst (run ?evs (?s, []))"
  have fin: "st =
      ?s\<lparr>genRef := 2, isCompressing := False, compSize := 700,
         compressedURL := ResultURL \<lparr>made_by = 2, made_for_k = 50, blob_size = 700\<rparr>\<rparr>"
    unfolding st_def
    by (simp add: handleUpload_def initial_app_def compressImage_enter_def
        compressImage_publish_def Let_def)
  then have ne: "compressedURL st \<noteq> compressedURL ?s"
    using u by simp
  from stale_results_discarded f i a
  have "(compressedURL st = compressedURL ?s \<and> compSize st = compSize ?s) \<or>
        shows_result_of st \<lparr>myGen = genRef ?s + 2, kValue = 50\<rparr>"
    unfolding st_def by blast
  with ne have "shows_result_of st \<lparr>myGen = genRef ?s + 2, kValue = 50\<rparr>"
    by blast
  moreover have "genRef ?s + 2 = 2" unfolding u(2) by simp
  ultimately have "shows_result_of st \<lparr>myGen = 2, kValue = 50\<rparr>"
    by (simp only:)
  with f i fin show ?thesis unfolding st_def by blast
qed

section \<open>Properties of the rounding\<close>

lemma pow2_powi: "pow2 e = 2 powi e"
  unfolding pow2_def power_int_def by (simp add: inverse_eq_divide power_one_over)

lemma pow2_pos: "0 < pow2 e"
  by (simp add: pow2_powi)

lemma pow2_mono: "e \<le> e' \<Longrightarrow> pow2 e \<le> pow2 e'"
  by (simp add: pow2_powi power_int_increasing)

lemma bexp_small:
  assumes "0 < x" "x \<le> 256"
  shows "bexp x \<le> 8"
proof (cases "1 \<le> x")
  case True
  have "of_int \<lfloor>x\<rfloor> \<le> x" by simp
  then have "\<lfloor>x\<rfloor> \<le> 256" using assms(2) by linarith
  then have "nat \<lfloor>x\<rfloor> < 512" by linarith
  then have "nat \<lfloor>x\<rfloor> < 2 ^ 9" by simp
  then have "floorlog 2 (nat \<lfloor>x\<rfloor>) \<le> 9" by (simp add: floorlog_le_iff)
  then show ?thesis using True by (simp add: bexp_def bitlen_def)
next
  case False
  have "0 \<le> bitlen (\<lceil>1 / x\<rceil> - 1)" by (rule bitlen_nonneg)
  then show ?thesis using False by (simp add: bexp_def)
qed

lemma round_half_even_close: "\<bar>of_int (round_half_even q) - q\<bar> \<le> 1 / 2"
  unfolding round_half_even_def Let_def by (auto; linarith)

lemma round_half_even_nonneg: "0 \<le> q \<Longrightarrow> 0 \<le> round_half_even q"
  unfolding round_half_even_def Let_def by (auto; linarith)

lemma fl64_small:
  assumes "0 \<le> x" "x \<le> 256"
  shows "\<exists>y. fl64 x = Num y \<and> 0 \<le> y \<and> \<bar>y - x\<bar> \<le> 1 / 2 ^ 45"
proof (cases "x = 0")
  case True
  then show ?thesis by (simp add: fl64_def)
next
  case False
  then have pos: "0 < x" using assms(1) by simp
  define e where "e = max (bexp x) (- 1022)"
  define ulp where "ulp = pow2 (e - 52)"
  define n where "n = round_half_even (x / ulp)"
  have e8: "e \<le> 8" using bexp_small[OF pos assms(2)] by (simp add: e_def)
  have up: "0 < ulp" by (simp add: ulp_def pow2_pos)
  have "ulp \<le> pow2 (- 44)" unfolding ulp_def using e8 by (intro pow2_mono) simp
  then have us: "ulp \<le> 1 / 2 ^ 44" by (simp add: pow2_def)
  have v: "fl64 x = Num (of_int n * ulp)"
    using pos e8 by (simp add: fl64_def Let_def e_def[symmetric] ulp_def[symmetric] n_def[symmetric])
  have "0 \<le> x / ulp" using pos up by simp
  then have n0: "0 \<le> n" unfolding n_def by (rule round_half_even_nonneg)
  have "\<bar>of_int n - x / ulp\<bar> \<le> 1 / 2" unfolding n_def by (rule round_half_even_close)
  then have "\<bar>of_int n - x / ulp\<bar> * ulp \<le> 1 / 2 * ulp" using up by (intro mult_right_mono) simp_all
  moreover have "\<bar>of_int n - x / ulp\<bar> * ulp = \<bar>of_int n * ulp - x\<bar>"
  proof -
    have "\<bar>of_int n - x / ulp\<bar> * ulp = \<bar>(of_int n - x / ulp) * ulp\<bar>"
      using up by (simp add: abs_mult)
    also have "(of_int n - x / ulp) * ulp = of_int n * ulp - x" using up by (simp add: field_simps)
    finally show ?thesis .
  qed
  ultimately have "\<bar>of_int n * ulp - x\<bar> \<le> 1 / 2 * ulp" by simp
  also have "\<dots> \<le> 1 / 2 * (1 / 2 ^ 44)" using us by simp
  also have "\<dots> = 1 / 2 ^ 45" by simp
  finally have "\<bar>of_int n * ulp - x\<bar> \<le> 1 / 2 ^ 45" .
  moreover have "0 \<le> of_int n * ulp" using n0 up by simp
  ultimately show ?thesis using v by blast
qed

lemma literal_299: "fl64 (299 / 1000) = Num (5386305154335113 / 18014398509481984)"
  by code_simp

lemma literal_587: "fl64 (587 / 1000) = Num (2643612981266481 / 4503599627370496)"
  by code_simp

lemma literal_114: "fl64 (114 / 1000) = Num (8214565720323785 / 72057594037927936)"
  by code_simp

lemma luminance_close:
  assumes R: "0 \<le> R" "R \<le> 255" and G: "0 \<le> G" "G \<le> 255" and B: "0 \<le> B" "B \<le> 255"
  shows "\<exists>y. luminance (Num R) (Num G) (Num B) = Num y \<and>
           \<bar>y - (299 / 1000 * R + 587 / 1000 * G + 114 / 1000 * B)\<bar> \<le> 1 / 2 ^ 42"
proof -
  let ?a1 = "5386305154335113 / 18014398509481984 :: real"
  let ?a2 = "2643612981266481 / 4503599627370496 :: real"
  let ?a3 = "8214565720323785 / 72057594037927936 :: real"
  let ?d = "1 / 2 ^ 45 :: real"
  have "0 \<le> ?a1 * R" "?a1 * R \<le> 256" using R by simp_all
  from fl64_small[OF this] obtain p1 where
    p1: "fl64 (?a1 * R) = Num p1" "0 \<le> p1" "\<bar>p1 - ?a1 * R\<bar> \<le> ?d" by blast
  have "0 \<le> ?a2 * G" "?a2 * G \<le> 256" using G by simp_all
  from fl64_small[OF this] obtain p2 where
    p2: "fl64 (?a2 * G) = Num p2" "0 \<le> p2" "\<bar>p2 - ?a2 * G\<bar> \<le> ?d" by blast
  have "0 \<le> ?a3 * B" "?a3 * B \<le> 256" using B by simp_all
  from fl64_small[OF this] obtain p3 where
    p3: "fl64 (?a3 * B) = Num p3" "0 \<le> p3" "\<bar>p3 - ?a3 * B\<bar> \<le> ?d" by blast
  have b1: "?a1 * R - ?d \<le> p1" "p1 \<le> ?a1 * R + ?d" using p1(3) by (simp_all only: abs_diff_le_iff)
  have b2: "?a2 * G - ?d \<le> p2" "p2 \<le> ?a2 * G + ?d" using p2(3) by (simp_all only: abs_diff_le_iff)
  have b3: "?a3 * B - ?d \<le> p3" "p3 \<le> ?a3 * B + ?d" using p3(3) by (simp_all only: abs_diff_le_iff)
  have "0 \<le> p1 + p2" using p1(2) p2(2) by simp
  moreover have "p1 + p2 \<le> 256" using b1 b2 R G by simp
  ultimately obtain s1 where
    s1: "fl64 (p1 + p2) = Num s1" "0 \<le> s1" "\<bar>s1 - (p1 + p2)\<bar> \<le> ?d"
    using fl64_small by blast
  have c1: "p1 + p2 - ?d \<le> s1" "s1 \<le> p1 + p2 + ?d" using s1(3) by (simp_all only: abs_diff_le_iff)
  have "0 \<le> s1 + p3" using s1(2) p3(2) by simp
  moreover have "s1 + p3 \<le> 256" using c1 b1 b2 b3 R G B by simp
  ultimately obtain s2 where
    s2: "fl64 (s1 + p3) = Num s2" "0 \<le> s2" "\<bar>s2 - (s1 + p3)\<bar> \<le> ?d"
    using fl64_small by blast
  have c2: "s1 + p3 - ?d \<le> s2" "s2 \<le> s1 + p3 + ?d" using s2(3) by (simp_all only: abs_diff_le_iff)
  have v: "luminance (Num R) (Num G) (Num B) = Num s2"
    unfolding luminance_def literal_299 literal_587 literal_114 jmul.simps jadd.simps
      p1 p2 p3 s1 s2 by (rule refl)
  have "299 / 1000 * R + 587 / 1000 * G + 114 / 1000 * B - 1 / 2 ^ 42 \<le> s2"
    using b1 b2 b3 c1 c2 R G B by simp
  moreover have "s2 \<le> 299 / 1000 * R + 587 / 1000 * G + 114 / 1000 * B + 1 / 2 ^ 42"
    using b1 b2 b3 c1 c2 R G B by simp
  ultimately have "\<bar>s2 - (299 / 1000 * R + 587 / 1000 * G + 114 / 1000 * B)\<bar> \<le> 1 / 2 ^ 42"
    by (simp only: abs_diff_le_iff)
  with v show ?thesis by blast
qed

lemma real_pow2_le_int: "(2::int) ^ k \<le> m \<Longrightarrow> (2::real) ^ k \<le> of_int m"
  by (metis of_int_le_iff of_int_numeral of_int_power)

lemma int_le_real_pow2: "m \<le> (2::int) ^ k \<Longrightarrow> of_int m \<le> (2::real) ^ k"
  by (metis of_int_le_iff of_int_numeral of_int_power)

lemma bexp_bounds:
  assumes "0 < x"
  shows "pow2 (bexp x) \<le> x \<and> x < pow2 (bexp x + 1)"
proof (cases "1 \<le> x")
  case True
  define m where "m = \<lfloor>x\<rfloor>"
  have m: "0 < m" "of_int m \<le> x" "x < of_int (m + 1)"
    unfolding m_def using True floor_correct[of x] by simp_all
  from bitlen_bounds[OF m(1)] have b: "2 ^ nat (bitlen m - 1) \<le> m" "m < 2 ^ nat (bitlen m)"
    by simp_all
  have b1: "1 \<le> bitlen m" using m(1) by (simp add: bitlen_alt_def)
  have e: "bexp x = bitlen m - 1" using True by (simp add: bexp_def m_def)
  have p: "pow2 (bexp x) = 2 ^ nat (bitlen m - 1)" "pow2 (bexp x + 1) = 2 ^ nat (bitlen m)"
    using b1 by (simp_all add: e pow2_def)
  have "(2::real) ^ nat (bitlen m - 1) \<le> of_int m" by (rule real_pow2_le_int[OF b(1)])
  then have lo: "pow2 (bexp x) \<le> x" unfolding p using m(2) by (rule order_trans)
  have "m + 1 \<le> 2 ^ nat (bitlen m)" using b(2) by simp
  then have "(of_int (m + 1) :: real) \<le> 2 ^ nat (bitlen m)" by (rule int_le_real_pow2)
  with m(3) have hi: "x < pow2 (bexp x + 1)" unfolding p by (rule less_le_trans)
  show ?thesis using lo hi by blast
next
  case False
  then have x1: "x < 1" by simp
  define N where "N = \<lceil>1 / x\<rceil>"
  have y: "1 < 1 / x" using assms x1 by simp
  have N: "1 / x \<le> of_int N" "of_int (N - 1) < 1 / x"
    unfolding N_def using ceiling_correct[of "1 / x"] by simp_all
  have N2: "2 \<le> N"
  proof -
    have "(1::real) < of_int N" using y N(1) by (rule less_le_trans)
    then have "1 < N" by simp
    then show ?thesis by simp
  qed
  define c where "c = bitlen (N - 1)"
  have pos: "0 < N - 1" using N2 by simp
  from bitlen_bounds[OF pos] have b: "2 ^ nat (c - 1) \<le> N - 1" "N - 1 < 2 ^ nat c"
    by (simp_all add: c_def)
  have c1: "1 \<le> c" using pos by (simp add: c_def bitlen_alt_def)
  have e: "bexp x = - c" using False by (simp add: bexp_def N_def c_def)
  have p: "pow2 (bexp x) = 1 / 2 ^ nat c" using c1 by (simp add: e pow2_def)
  have q: "pow2 (bexp x + 1) = 1 / 2 ^ nat (c - 1)"
  proof (cases "c = 1")
    case True
    then show ?thesis by (simp add: e pow2_def)
  next
    case False
    then have "- c + 1 < 0" "nat (- (- c + 1)) = nat (c - 1)" using c1 by simp_all
    then show ?thesis by (simp add: e pow2_def)
  qed
  have "N \<le> 2 ^ nat c" using b(2) by simp
  then have "(of_int N :: real) \<le> 2 ^ nat c" by (rule int_le_real_pow2)
  with N(1) have "1 / x \<le> 2 ^ nat c" by (rule order_trans)
  then have "1 \<le> 2 ^ nat c * x" using assms by (simp add: field_simps)
  then have "1 / 2 ^ nat c \<le> x" by (simp add: field_simps)
  then have lo: "pow2 (bexp x) \<le> x" unfolding p .
  have "(2::real) ^ nat (c - 1) \<le> of_int (N - 1)" by (rule real_pow2_le_int[OF b(1)])
  then have "2 ^ nat (c - 1) < 1 / x" using N(2) by (rule le_less_trans)
  then have "2 ^ nat (c - 1) * x < 1" using assms by (simp add: field_simps)
  then have "x < 1 / 2 ^ nat (c - 1)" by (simp add: field_simps)
  then have hi: "x < pow2 (bexp x + 1)" unfolding q .
  show ?thesis using lo hi by blast
qed

section \<open>Properties of the grayscale matrix\<close>

lemma gray_entry_formula:
  assumes "well_formed ras" "r < height ras" "c < width ras"
  shows "gray_entry ras r c =
           luminance (Num (real (unat (data ras ! ((r * width ras + c) * 4)))))
                     (Num (real (unat (data ras ! ((r * width ras + c) * 4 + 1)))))
                     (Num (real (unat (data ras ! ((r * width ras + c) * 4 + 2)))))"
proof -
  have "(r * width ras + c) * 4 + 3 < length (data ras)"
    using assms pixel_in_range[of r "height ras" c "width ras"] by (simp add: well_formed_def)
  then have "(r * width ras + c) * 4 < length (data ras)"
    "(r * width ras + c) * 4 + 1 < length (data ras)"
    "(r * width ras + c) * 4 + 2 < length (data ras)" by simp_all
  then show ?thesis
    unfolding gray_entry_def Let_def byte_at_def by simp
qed

lemma real_byte_le: "real (unat (b :: 8 word)) \<le> 255"
proof -
  have "unat b \<le> 255" by (rule unat_byte_le)
  then have "real (unat b) \<le> real 255" by (simp only: of_nat_le_iff)
  then show ?thesis by (simp only: of_nat_numeral)
qed

lemma luminance_of_bytes:
  "\<exists>y. luminance (Num (real (unat (R :: 8 word)))) (Num (real (unat (G :: 8 word))))
              (Num (real (unat (B :: 8 word)))) = Num y \<and>
       \<bar>y - (299 / 1000 * real (unat R) + 587 / 1000 * real (unat G) + 114 / 1000 * real (unat B))\<bar>
         \<le> 1 / 2 ^ 42"
proof -
  have "real (unat R) \<le> 255" "real (unat G) \<le> 255" "real (unat B) \<le> 255"
    by (rule real_byte_le)+
  moreover have "0 \<le> real (unat R)" "0 \<le> real (unat G)" "0 \<le> real (unat B)"
    by (rule of_nat_0_le_iff)+
  ultimately show ?thesis by (intro luminance_close)
qed

text \<open>
  Claim C4. For every raster with \<open>W \<ge> 1\<close>, \<open>H \<ge> 1\<close> and \<open>4 \<cdot> W \<cdot> H\<close> bytes, the
  grayscale matrix has \<open>H\<close> rows of \<open>W\<close> entries. Its entry at row \<open>r\<close>, column \<open>c\<close> is
  \<open>0.299 \<cdot> R + 0.587 \<cdot> G + 0.114 \<cdot> B\<close> of the pixel at \<open>(r, c)\<close>, evaluated in binary64 as
  line 56 does: a finite number within \<open>2\<^sup>-\<^sup>4\<^sup>2\<close> of the exact value of that sum. The
  matrix does not change when the alpha bytes of the raster change.
\<close>

theorem luminance_projection:
  assumes "well_formed ras" "1 \<le> width ras" "1 \<le> height ras"
  shows "length (gray ras) = height ras \<and>
         (\<forall>r<height ras.
            length (gray ras ! r) = width ras \<and>
            (\<forall>c<width ras.
               gray ras ! r ! c =
                 luminance (Num (real (unat (data ras ! ((r * width ras + c) * 4)))))
                           (Num (real (unat (data ras ! ((r * width ras + c) * 4 + 1)))))
                           (Num (real (unat (data ras ! ((r * width ras + c) * 4 + 2))))) \<and>
               (\<exists>y. gray ras ! r ! c = Num y \<and>
                    \<bar>y - (299 / 1000 * real (unat (data ras ! ((r * width ras + c) * 4)))
                          + 587 / 1000 * real (unat (data ras ! ((r * width ras + c) * 4 + 1)))
                          + 114 / 1000 * real (unat (data ras ! ((r * width ras + c) * 4 + 2))))\<bar>
                      \<le> 1 / 2 ^ 42))) \<and>
         (\<forall>d'. length d' = length (data ras) \<and>
               (\<forall>i<length d'. i mod 4 \<noteq> 3 \<longrightarrow> d' ! i = data ras ! i) \<longrightarrow>
               gray (ras\<lparr>data := d'\<rparr>) = gray ras)"
proof (intro conjI allI impI)
  show "length (gray ras) = height ras" by (rule length_gray)
next
  fix r assume "r < height ras"
  then show "length (gray ras ! r) = width ras" by (simp add: gray_row)
next
  fix r c assume "r < height ras" "c < width ras"
  then show "gray ras ! r ! c =
                 luminance (Num (real (unat (data ras ! ((r * width ras + c) * 4)))))
                           (Num (real (unat (data ras ! ((r * width ras + c) * 4 + 1)))))
                           (Num (real (unat (data ras ! ((r * width ras + c) * 4 + 2)))))"
    using gray_entry_formula[OF assms(1)] by (simp add: gray_nth)
next
  fix r c assume rc: "r < height ras" "c < width ras"
  have "gray ras ! r ! c =
                 luminance (Num (real (unat (data ras ! ((r * width ras + c) * 4)))))
                           (Num (real (unat (data ras ! ((r * width ras + c) * 4 + 1)))))
                           (Num (real (unat (data ras ! ((r * width ras + c) * 4 + 2)))))"
    using rc gray_entry_formula[OF assms(1)] by (simp add: gray_nth)
  then show "\<exists>y. gray ras ! r ! c = Num y \<and>
                    \<bar>y - (299 / 1000 * real (unat (data ras ! ((r * width ras + c) * 4)))
                          + 587 / 1000 * real (unat (data ras ! ((r * width ras + c) * 4 + 1)))
                          + 114 / 1000 * real (unat (data ras ! ((r * width ras + c) * 4 + 2))))\<bar>
                      \<le> 1 / 2 ^ 42"
    using luminance_of_bytes by simp
next
  fix d' assume "length d' = length (data ras) \<and>
               (\<forall>i<length d'. i mod 4 \<noteq> 3 \<longrightarrow> d' ! i = data ras ! i)"
  then have "gray_entry (ras\<lparr>data := d'\<rparr>) r c = gray_entry ras r c" for r c
    using gray_entry_ignores_alpha by blast
  then show "gray (ras\<lparr>data := d'\<rparr>) = gray ras" by (simp add: gray_def)
qed

theorem luminance_projection_witness:
  "well_formed \<lparr>width = 2, height = 1, data = [10, 20, 30, 255, 0, 80, 110, 0]\<rparr> \<and>
   gray \<lparr>width = 2, height = 1, data = [10, 20, 30, 255, 0, 80, 110, 0]\<rparr>
     = [[Num (2554385413649203 / 140737488355328), Num (8373880557142015 / 140737488355328)]] \<and>
   gray \<lparr>width = 2, height = 1, data = [10, 20, 30, 7, 0, 80, 110, 9]\<rparr>
     = gray \<lparr>width = 2, height = 1, data = [10, 20, 30, 255, 0, 80, 110, 0]\<rparr> \<and>
   \<bar>2554385413649203 / 140737488355328 - (1815 / 100 :: real)\<bar> \<le> 1 / 2 ^ 42 \<and>
   ToUint8Clamp (Num (8373880557142015 / 140737488355328)) = 59"
proof -
  let ?ras = "\<lparr>width = 2, height = 1, data = [10, 20, 30, 255, 0, 80, 110, 0]\<rparr>"
  have wf: "well_formed ?ras" "1 \<le> width ?ras" "1 \<le> height ?ras"
    by (simp_all add: well_formed_def)
  note t = luminance_projection[OF wf]
  have g: "gray ?ras
      = [[Num (2554385413649203 / 140737488355328), Num (8373880557142015 / 140737488355328)]]"
    by code_simp
  have a: "\<forall>i<8. i mod 4 \<noteq> 3 \<longrightarrow>
        [10, 20, 30, 7, 0, 80, 110, 9 :: 8 word] ! i = [10, 20, 30, 255, 0, 80, 110, 0] ! i"
  proof (intro allI impI)
    fix i :: nat assume "i < 8" "i mod 4 \<noteq> 3"
    then have "i = 0 \<or> i = 1 \<or> i = 2 \<or> i = 4 \<or> i = 5 \<or> i = 6" by presburger
    then show "[10, 20, 30, 7, 0, 80, 110, 9 :: 8 word] ! i
                 = [10, 20, 30, 255, 0, 80, 110, 0] ! i" by auto
  qed
  have "length [10, 20, 30, 7, 0, 80, 110, 9 :: 8 word] = length (data ?ras) \<and>
        (\<forall>i<length [10, 20, 30, 7, 0, 80, 110, 9 :: 8 word]. i mod 4 \<noteq> 3 \<longrightarrow>
            [10, 20, 30, 7, 0, 80, 110, 9] ! i = data ?ras ! i)"
    using a by simp
  then have "gray (?ras\<lparr>data := [10, 20, 30, 7, 0, 80, 110, 9]\<rparr>) = gray ?ras"
    by (rule t[THEN conjunct2, THEN conjunct2, rule_format])
  then have al: "gray \<lparr>width = 2, height = 1, data = [10, 20, 30, 7, 0, 80, 110, 9]\<rparr> = gray ?ras"
    by simp
  have n: "\<bar>2554385413649203 / 140737488355328 - (1815 / 100 :: real)\<bar> \<le> 1 / 2 ^ 42"
    by simp
  have b: "ToUint8Clamp (Num (8373880557142015 / 140737488355328)) = 59"
    by code_simp
  from wf(1) g al n b show ?thesis by blast
qed

section \<open>Truncation and product (App.js, lines 70 to 73)\<close>

lemma js_slice0_take:
  assumes "0 \<le> e"
  shows "js_slice0 xs e = take (nat (min e (int (length xs)))) xs"
  using assms by (simp add: js_slice0_def Let_def)

lemma js_slice0_rows:
  assumes "list_all (\<lambda>row. length row = n) M" "1 \<le> e"
  shows "map (\<lambda>row. js_slice0 row e) M = map (take (nat (min e (int n)))) M"
proof (rule map_cong[OF refl])
  fix row assume "row \<in> set M"
  then have "length row = n" using assms(1) by (simp add: list_all_iff)
  then show "js_slice0 row e = take (nat (min e (int n))) row"
    using assms(2) by (simp add: js_slice0_take)
qed

lemma rect_numeric_dotMM:
  assumes "length x = m" "y \<noteq> []" "length (hd y) = n"
  shows "rect (numeric_dotMM x y) m n"
  using assms by (simp add: rect_def numeric_dotMM_def list_all_iff)

lemma rect_hd: "rect x m n \<Longrightarrow> 0 < m \<Longrightarrow> x \<noteq> [] \<and> length (hd x) = n"
  by (cases x) (auto simp: rect_def)

text \<open>The first \<open>kk\<close> columns of \<open>V\<close>, as the rows of a matrix: line 73's
  \<open>numeric.transpose(VkT)\<close>.\<close>

lemma transpose_take:
  assumes "rect V n n" "0 < n" "kk \<le> n"
  shows "numeric_transpose (map (take kk) V) =
           Inr (map (\<lambda>l. map (\<lambda>j. V ! j ! l) [0..<n]) [0..<kk])"
proof -
  have r: "rect (map (take kk) V) n kk"
    using assms(1,3) by (auto simp: rect_def list_all_iff)
  have "map (\<lambda>l. map (\<lambda>j. map (take kk) V ! j ! l) [0..<n]) [0..<kk]
      = map (\<lambda>l. map (\<lambda>j. V ! j ! l) [0..<n]) [0..<kk]"
    using assms(1) by (simp add: rect_def)
  then show ?thesis using transpose_rect[OF r assms(2)] by simp
qed

lemma reconstruct_truncates:
  assumes sh: "svd_shapes mat (U, S, V)" and mat: "rect mat m n" "0 < m" "0 < n"
    and k: "1 \<le> kEff" and kk_def: "kk = nat (min kEff (int n))"
  shows "reconstruct (U, S, V) kEff =
           Inr (numeric_dotMM (map (take kk) U)
                  (numeric_dotMM (numeric_diag (take kk S))
                     (map (\<lambda>l. map (\<lambda>j. V ! j ! l) [0..<n]) [0..<kk])))"
    and "rect (numeric_dotMM (map (take kk) U)
                  (numeric_dotMM (numeric_diag (take kk S))
                     (map (\<lambda>l. map (\<lambda>j. V ! j ! l) [0..<n]) [0..<kk]))) m n"
    and "1 \<le> kk" and "kk \<le> n"
proof -
  have hd: "length (hd mat) = n" using rect_hd[OF mat(1,2)] by simp
  have s: "length U = m" "list_all (\<lambda>row. length row = n) U" "length S = n"
    "length V = n" "list_all (\<lambda>row. length row = n) V"
    using sh hd mat(1) by (simp_all add: svd_shapes_def Let_def rect_def)
  show k1: "1 \<le> kk" and kn: "kk \<le> n" using k mat(3) by (simp_all add: kk_def)
  let ?Uk = "map (take kk) U"
  let ?Sk = "numeric_diag (take kk S)"
  let ?Vt = "map (\<lambda>l. map (\<lambda>j. V ! j ! l) [0..<n]) [0..<kk]"
  have Uk: "map (\<lambda>row. js_slice0 row kEff) U = ?Uk"
    unfolding kk_def by (rule js_slice0_rows[OF s(2) k])
  have Vk: "map (\<lambda>row. js_slice0 row kEff) V = map (take kk) V"
    unfolding kk_def by (rule js_slice0_rows[OF s(5) k])
  have Sk: "js_slice0 S kEff = take kk S"
    unfolding kk_def using k s(3) by (simp add: js_slice0_take)
  have rV: "rect V n n" using s(4,5) by (simp add: rect_def)
  have Vt: "numeric_transpose (map (take kk) V) = Inr ?Vt"
    by (rule transpose_take[OF rV mat(3) kn])
  have lS: "length (take kk S) = kk" using s(3) kn by simp
  have Sk_ne: "?Sk \<noteq> []" using lS k1 by (auto simp: numeric_diag_def)
  have Vt_ne: "?Vt \<noteq> []" using k1 by auto
  have Vt_hd: "length (hd ?Vt) = n" using k1 by (simp add: hd_map upt_conv_Cons)
  have Uk_ne: "?Uk \<noteq> []" using s(1) mat(2) by auto
  have SV: "numeric_dot ?Sk ?Vt = Inr (numeric_dotMM ?Sk ?Vt)"
    using Sk_ne Vt_ne by (simp add: numeric_dot_def)
  have lSk: "length ?Sk = kk" using lS by (simp add: numeric_diag_def)
  have rSV: "rect (numeric_dotMM ?Sk ?Vt) kk n"
    by (rule rect_numeric_dotMM[OF lSk Vt_ne Vt_hd])
  have SV_ne: "numeric_dotMM ?Sk ?Vt \<noteq> []" "length (hd (numeric_dotMM ?Sk ?Vt)) = n"
    using rect_hd[OF rSV] k1 by simp_all
  have USV: "numeric_dot ?Uk (numeric_dotMM ?Sk ?Vt) = Inr (numeric_dotMM ?Uk (numeric_dotMM ?Sk ?Vt))"
    using Uk_ne SV_ne(1) by (simp add: numeric_dot_def)
  show "reconstruct (U, S, V) kEff = Inr (numeric_dotMM ?Uk (numeric_dotMM ?Sk ?Vt))"
    unfolding reconstruct_def prod.case Let_def Uk Vk Sk Vt sum.case SV USV by (rule refl)
  have "length ?Uk = m" using s(1) by simp
  then show "rect (numeric_dotMM ?Uk (numeric_dotMM ?Sk ?Vt)) m n"
    by (rule rect_numeric_dotMM[OF _ SV_ne])
qed

lemma kEff_of_tall: "n \<le> m \<Longrightarrow> kEff_of k m n = min k (int n)"
  by (simp add: kEff_of_def Let_def min_absorb2)

lemma prepare_shape:
  assumes "prepare ras = Inr (mat, m, n)"
  shows "rect mat m n" "0 < m" "n \<le> m" "n = min (height ras) (width ras)"
    "m = max (height ras) (width ras)" "length (hd mat) = n" "0 < height ras"
proof -
  from prepare_dims[OF assms] show a: "rect mat m n" "0 < m" "n = min (height ras) (width ras)"
    "m = max (height ras) (width ras)" "0 < height ras" by blast+
  then show "n \<le> m" by simp
  show "length (hd mat) = n" using rect_hd[OF a(1,2)] by simp
qed

section \<open>Propagation of \<open>NaN\<close> through the product\<close>

lemma jadd_NaN_right: "jadd x NaN = NaN"
  by (cases x) simp_all

lemma jmul_NaN_right: "jmul x NaN = NaN"
  by (cases x) simp_all

lemma pair_sum_NaN:
  "woo = NaN \<or> (\<exists>l<c. f l = NaN) \<Longrightarrow> pair_sum f c woo = NaN"
proof (induction f c woo rule: pair_sum.induct)
  case (1 f woo)
  then show ?case by simp
next
  case (2 f woo)
  then show ?case by (auto simp: jadd_NaN_right)
next
  case (3 f c woo)
  have "jadd woo (jadd (f (Suc c)) (f c)) = NaN \<or> (\<exists>l<c. f l = NaN)"
  proof (cases "woo = NaN \<or> f (Suc c) = NaN \<or> f c = NaN")
    case True
    then show ?thesis by (auto simp: jadd_NaN_right)
  next
    case False
    with "3.prems" obtain l where l: "l < Suc (Suc c)" "f l = NaN" by blast
    with False have "l \<noteq> Suc c" "l \<noteq> c" by auto
    with l have "l < c" by simp
    with l(2) show ?thesis by blast
  qed
  from "3.IH"[OF this] show ?case by simp
qed

lemma dot_terms_NaN: "l < len \<Longrightarrow> f l = NaN \<Longrightarrow> dot_terms len f = NaN"
proof -
  assume l: "l < len" "f l = NaN"
  then have "f (len - 1) = NaN \<or> (\<exists>j<len - 1. f j = NaN)"
    by (cases "l = len - 1") auto
  from pair_sum_NaN[OF this] show ?thesis using l(1) by (simp add: dot_terms_def)
qed

lemma dot_entry_NaN:
  assumes "length bar = length y" "l < length y"
    and "bar ! l = NaN \<or> nth_num (y ! l) k = NaN"
  shows "dot_entry bar y k = NaN"
proof -
  let ?f = "\<lambda>j. jmul (nth_num bar j) (if j < length y then nth_num (y ! j) k else NaN)"
  have "?f l = NaN"
    using assms by (auto simp: nth_num_def jmul_NaN_right)
  moreover have "l < (if length y < 10 then length y else length bar)" using assms(1,2) by simp
  ultimately have "dot_terms (if length y < 10 then length y else length bar) ?f = NaN"
    by (rule dot_terms_NaN[rotated])
  then show ?thesis by (simp add: dot_entry_def Let_def)
qed

lemma numeric_dotMM_nth:
  "i < length x \<Longrightarrow> k < length (hd y) \<Longrightarrow> numeric_dotMM x y ! i ! k = dot_entry (x ! i) y k"
  by (simp add: numeric_dotMM_def)

lemma NaN_in_take: "NaN \<in> set (take kk xs) \<Longrightarrow> \<exists>l<kk. l < length xs \<and> xs ! l = NaN"
  by (auto simp: in_set_conv_nth)

lemma nonfinite_product:
  assumes sh: "length U = m" "list_all (\<lambda>row. length row = n) U" "length S = n"
      "length V = n" "list_all (\<lambda>row. length row = n) V"
    and kk: "1 \<le> kk" "kk \<le> n"
    and nf: "nonfinite_factors (U, S, V) kk"
    and ij: "i < m" "j < n"
  shows "numeric_dotMM (map (take kk) U)
           (numeric_dotMM (numeric_diag (take kk S))
              (map (\<lambda>l. map (\<lambda>j. V ! j ! l) [0..<n]) [0..<kk])) ! i ! j = NaN"
proof -
  let ?Uk = "map (take kk) U"
  let ?Sk = "numeric_diag (take kk S)"
  let ?Vt = "map (\<lambda>l. map (\<lambda>j. V ! j ! l) [0..<n]) [0..<kk]"
  let ?SV = "numeric_dotMM ?Sk ?Vt"
  have lS: "length (take kk S) = kk" using sh(3) kk(2) by simp
  have lSk: "length ?Sk = kk" using lS by (simp add: numeric_diag_def)
  have Sk_row: "length (?Sk ! l) = kk" if "l < kk" for l
    using that lS by (simp add: numeric_diag_def)
  have Sk_diag: "?Sk ! l ! l = S ! l" if "l < kk" for l
    using that lS by (simp add: numeric_diag_def)
  have lVt: "length ?Vt = kk" by simp
  have hdVt: "length (hd ?Vt) = n" using kk(1) by (simp add: hd_map upt_conv_Cons)
  have Vt_nth: "nth_num (?Vt ! l) c = V ! c ! l" if "l < kk" "c < n" for l c
    using that by (simp add: nth_num_def)
  have lSV: "length ?SV = kk" using lSk by (simp add: numeric_dotMM_def)
  have hdSV: "length (hd ?SV) = n"
    using lSk kk(1) hdVt by (cases ?Sk) (simp_all add: numeric_dotMM_def)
  have SV_row: "length (?SV ! l) = n" if "l < kk" for l
    using that lSk hdVt by (simp add: numeric_dotMM_def)
  have SV_nth: "?SV ! l ! c = dot_entry (?Sk ! l) ?Vt c" if "l < kk" "c < n" for l c
    using that lSk hdVt by (simp add: numeric_dotMM_nth)
  have Uk_row: "length (?Uk ! i) = kk"
    using ij(1) sh(1,2) kk(2) by (simp add: list_all_length)
  have entry: "numeric_dotMM ?Uk ?SV ! i ! j = dot_entry (?Uk ! i) ?SV j"
    using ij sh(1) hdSV by (simp add: numeric_dotMM_nth)
  from nf consider (S) "NaN \<in> set (take kk S)"
    | (U) "list_all (\<lambda>row. NaN \<in> set (take kk row)) U"
    | (V) "list_all (\<lambda>row. NaN \<in> set (take kk row)) V"
    by (auto simp: nonfinite_factors_def)
  then have "dot_entry (?Uk ! i) ?SV j = NaN"
  proof cases
    case S
    then obtain l where l: "l < kk" "S ! l = NaN" using NaN_in_take by blast
    have "dot_entry (?Sk ! l) ?Vt j = NaN"
      by (rule dot_entry_NaN[of _ _ l]) (use l lVt Sk_row Sk_diag in simp_all)
    then have "nth_num (?SV ! l) j = NaN"
      using SV_nth[OF l(1) ij(2)] SV_row[OF l(1)] ij(2) by (simp add: nth_num_def)
    then show ?thesis
      by (intro dot_entry_NaN[of _ _ l]) (use l(1) lSV Uk_row in simp_all)
  next
    case U
    then have "NaN \<in> set (take kk (U ! i))" using ij(1) sh(1) by (simp add: list_all_length)
    then obtain l where l: "l < kk" "U ! i ! l = NaN" using NaN_in_take by blast
    then have "?Uk ! i ! l = NaN" using ij(1) sh(1) by simp
    then show ?thesis
      by (intro dot_entry_NaN[of _ _ l]) (use l(1) lSV Uk_row in simp_all)
  next
    case V
    then have "NaN \<in> set (take kk (V ! j))" using ij(2) sh(4) by (simp add: list_all_length)
    then obtain l where l: "l < kk" "V ! j ! l = NaN" using NaN_in_take by blast
    have z: "0 < kk" using kk(1) by simp
    have "nth_num (?Vt ! l) j = NaN" using Vt_nth[OF l(1) ij(2)] l(2) by simp
    then have "dot_entry (?Sk ! 0) ?Vt j = NaN"
      by (intro dot_entry_NaN[of _ _ l]) (use l(1) z lVt Sk_row in simp_all)
    then have "nth_num (?SV ! 0) j = NaN"
      using SV_nth[OF z ij(2)] SV_row[OF z] ij(2) by (simp add: nth_num_def)
    then show ?thesis
      by (intro dot_entry_NaN[of _ _ 0]) (use z lSV Uk_row in simp_all)
  qed
  with entry show ?thesis by simp
qed

section \<open>From the factors to the raster\<close>

lemma orient_inverse_entries:
  assumes p: "prepare ras = Inr (mat, m, n)" and w: "1 \<le> width ras" and r: "rect recon m n"
  shows "\<exists>fin. orient_inverse (tall ras) recon = Inr fin \<and>
           rect fin (height ras) (width ras) \<and>
           (\<forall>r<height ras. \<forall>c<width ras.
              fin ! r ! c = (if height ras < width ras then recon ! c ! r else recon ! r ! c))"
proof (cases "height ras < width ras")
  case True
  have d: "m = width ras" "n = height ras" "0 < m"
    using prepare_shape[OF p] True by simp_all
  have r': "rect recon (width ras) (height ras)" using r d by simp
  have w0: "0 < width ras" using w by simp
  have t: "numeric_transpose recon =
      Inr (map (\<lambda>j. map (\<lambda>i. recon ! i ! j) [0..<width ras]) [0..<height ras])"
    by (rule transpose_rect[OF r' w0])
  from transpose_dims[OF r' w0 t] have
    "rect (map (\<lambda>j. map (\<lambda>i. recon ! i ! j) [0..<width ras]) [0..<height ras])
       (height ras) (width ras)"
    "\<forall>j<height ras. \<forall>i<width ras.
       map (\<lambda>j. map (\<lambda>i. recon ! i ! j) [0..<width ras]) [0..<height ras] ! j ! i = recon ! i ! j"
    by blast+
  moreover have "orient_inverse (tall ras) recon =
      Inr (map (\<lambda>j. map (\<lambda>i. recon ! i ! j) [0..<width ras]) [0..<height ras])"
    using True t by (simp add: orient_inverse_def tall_def)
  ultimately show ?thesis using True by auto
next
  case False
  have d: "m = height ras" "n = width ras"
    using prepare_shape[OF p] False by simp_all
  have "orient_inverse (tall ras) recon = Inr recon"
    using False by (simp add: orient_inverse_def tall_def)
  then show ?thesis using False r d by auto
qed

lemma pipeline_matrix:
  assumes p: "prepare ras = Inr (mat, m, n)" and s: "svd mat = Inr (U, S, V)"
    and sh: "svd_shapes mat (U, S, V)" and k: "1 \<le> k" and w: "1 \<le> width ras"
  shows "\<exists>recon fin.
           recon = numeric_dotMM (map (take (nat (kEff_of k m n))) U)
                     (numeric_dotMM (numeric_diag (take (nat (kEff_of k m n)) S))
                        (map (\<lambda>l. map (\<lambda>j. V ! j ! l) [0..<n]) [0..<nat (kEff_of k m n)])) \<and>
           reconstruct (U, S, V) (kEff_of k m n) = Inr recon \<and>
           rect recon m n \<and>
           1 \<le> nat (kEff_of k m n) \<and> nat (kEff_of k m n) \<le> n \<and>
           orient_inverse (tall ras) recon = Inr fin \<and>
           rect fin (height ras) (width ras) \<and>
           (\<forall>r<height ras. \<forall>c<width ras.
              fin ! r ! c = (if height ras < width ras then recon ! c ! r else recon ! r ! c)) \<and>
           compress_core svd ras k = write_raster fin (width ras) (height ras)"
proof -
  note d = prepare_shape[OF p]
  have n0: "0 < n" using d(4,7) w by simp
  have ke: "kEff_of k m n = min k (int n)" by (rule kEff_of_tall[OF d(3)])
  have k1: "1 \<le> kEff_of k m n" using k n0 by (simp add: ke)
  have kk: "nat (kEff_of k m n) = nat (min (kEff_of k m n) (int n))" by (simp add: ke)
  let ?recon = "numeric_dotMM (map (take (nat (kEff_of k m n))) U)
                  (numeric_dotMM (numeric_diag (take (nat (kEff_of k m n)) S))
                     (map (\<lambda>l. map (\<lambda>j. V ! j ! l) [0..<n]) [0..<nat (kEff_of k m n)]))"
  note t = reconstruct_truncates[OF sh d(1,2) n0 k1 kk]
  from orient_inverse_entries[OF p w t(2)] obtain fin where
    b: "orient_inverse (tall ras) ?recon = Inr fin" "rect fin (height ras) (width ras)"
       "\<forall>r<height ras. \<forall>c<width ras.
          fin ! r ! c = (if height ras < width ras then ?recon ! c ! r else ?recon ! r ! c)"
    by blast
  have "compress_core svd ras k = write_raster fin (width ras) (height ras)"
    unfolding compress_core_def p sum.case prod.case Let_def s t(1) b(1) by (rule refl)
  with t b show ?thesis by blast
qed

lemma lum_of_NaN: "nth_num (recon ! r) c = NaN \<Longrightarrow> lum_of recon r c = NaN"
  by (simp add: lum_of_def)

lemma ToUint8Clamp_NaN: "ToUint8Clamp NaN = 0"
  by (simp add: ToUint8Clamp_def)

lemma write_raster_NaN:
  assumes r: "rect fin h w" and nan: "\<forall>r<h. \<forall>c<w. fin ! r ! c = NaN"
  shows "\<exists>out. write_raster fin w h = Inr out \<and> width out = w \<and> height out = h \<and>
           length (data out) = 4 * (w * h) \<and>
           (\<forall>i<4 * (w * h). data out ! i = (if i mod 4 = 3 then 255 else 0))"
proof -
  have "h \<le> length fin" using r by (simp add: rect_def)
  from write_raster_ok[OF this, of w] obtain d where
    d: "write_raster fin w h = Inr \<lparr>width = w, height = h, data = d\<rparr>"
       "length d = 4 * (w * h)" "\<forall>i<4 * (w * h). d ! i = expected_byte fin w i"
    by blast
  have "expected_byte fin w i = (if i mod 4 = 3 then 255 else 0)" if i: "i < 4 * (w * h)" for i
  proof -
    have "i div 4 < w * h" using i by simp
    then have w0: "0 < w" and rr: "(i div 4) div w < h"
      by (auto simp: less_mult_imp_div_less mult.commute intro: Nat.gr0I)
    have cc: "(i div 4) mod w < w" using w0 by simp
    have "length (fin ! ((i div 4) div w)) = w" using rect_nth[OF r rr] .
    then have "nth_num (fin ! ((i div 4) div w)) ((i div 4) mod w) = NaN"
      using nan rr cc by (simp add: nth_num_def)
    then have "lum_of fin ((i div 4) div w) ((i div 4) mod w) = NaN" by (rule lum_of_NaN)
    then show ?thesis by (simp add: expected_byte_def ToUint8Clamp_NaN)
  qed
  then have "\<forall>i<4 * (w * h). d ! i = (if i mod 4 = 3 then 255 else 0)" using d(3) by simp
  then show ?thesis using d(1,2) by simp
qed


lemma pipeline_succeeds:
  assumes "prepare ras = Inr (mat, m, n)" and "svd mat = Inr (U, S, V)"
    and "svd_shapes mat (U, S, V)" and "1 \<le> k" and "1 \<le> width ras"
  shows "\<exists>out. compress_core svd ras k = Inr out"
proof -
  from pipeline_matrix[where svd=svd, OF assms] obtain fin where
    f: "rect fin (height ras) (width ras)"
       "compress_core svd ras k = write_raster fin (width ras) (height ras)"
    by blast
  have "height ras \<le> length fin" using f(1) by (simp add: rect_def)
  from write_raster_ok[OF this, of "width ras"] show ?thesis using f(2) by auto
qed

section \<open>The effective rank\<close>

text \<open>
  Claim C2. The effective rank of lines 65 and 66 is \<open>min(k, min(m, n))\<close>, which is
  \<open>min(k, length(S))\<close> for factors in the shapes \<open>numeric.svd\<close> returns. For \<open>k \<ge> 1\<close>
  lines 70 to 73 then compute the product of the first \<open>kEff\<close> columns of \<open>U\<close>, the
  diagonal matrix of the first \<open>kEff\<close> singular values, and the transpose of the first
  \<open>kEff\<close> columns of \<open>V\<close>, and the run returns a raster. Hence, for every raster and every
  decomposition routine, a run with any \<open>k\<close> of at least \<open>min(H, W)\<close> is the run with
  \<open>k = min(H, W)\<close>: the same raster, and no error of its own.
\<close>

theorem rank_clamped_from_above:
  "(\<forall>mat m n U S V.
      prepare ras = Inr (mat, m, n) \<and> svd mat = Inr (U, S, V) \<and> svd_shapes mat (U, S, V) \<longrightarrow>
      kEff_of k m n = min k (int (length S)) \<and>
      (1 \<le> k \<and> 1 \<le> width ras \<longrightarrow>
         (\<exists>kk Vt. int kk = kEff_of k m n \<and> 1 \<le> kk \<and> kk \<le> length S \<and>
            numeric_transpose (map (take kk) V) = Inr Vt \<and>
            reconstruct (U, S, V) (kEff_of k m n) =
              Inr (numeric_dotMM (map (take kk) U)
                     (numeric_dotMM (numeric_diag (take kk S)) Vt))) \<and>
         (\<exists>out. compress_core svd ras k = Inr out))) \<and>
   (int (min (height ras) (width ras)) \<le> k \<longrightarrow>
      compress_core svd ras k = compress_core svd ras (int (min (height ras) (width ras))) \<and>
      (\<forall>out. compress_core svd ras (int (min (height ras) (width ras))) = Inr out \<longrightarrow>
             compress_core svd ras k = Inr out))"
proof (intro conjI allI impI)
  fix mat m n U S V
  assume a: "prepare ras = Inr (mat, m, n) \<and> svd mat = Inr (U, S, V) \<and> svd_shapes mat (U, S, V)"
  then have p: "prepare ras = Inr (mat, m, n)" and s: "svd mat = Inr (U, S, V)"
    and sh: "svd_shapes mat (U, S, V)" by blast+
  note d = prepare_shape[OF p]
  have ls: "length S = n" "length V = n" "list_all (\<lambda>row. length row = n) V"
    using sh d(6) by (simp_all add: svd_shapes_def Let_def)
  show ke: "kEff_of k m n = min k (int (length S))"
    using kEff_of_tall[OF d(3)] ls(1) by simp
  assume k: "1 \<le> k \<and> 1 \<le> width ras"
  then have k1: "1 \<le> k" and w: "1 \<le> width ras" by blast+
  from pipeline_matrix[where svd=svd, OF p s sh k1 w]
  have r: "reconstruct (U, S, V) (kEff_of k m n) =
             Inr (numeric_dotMM (map (take (nat (kEff_of k m n))) U)
                    (numeric_dotMM (numeric_diag (take (nat (kEff_of k m n)) S))
                       (map (\<lambda>l. map (\<lambda>j. V ! j ! l) [0..<n]) [0..<nat (kEff_of k m n)])))"
    and b: "1 \<le> nat (kEff_of k m n)" "nat (kEff_of k m n) \<le> n"
    by blast+
  have n0: "0 < n" using b by simp
  have rV: "rect V n n" using ls(2,3) by (simp add: rect_def)
  have vt: "numeric_transpose (map (take (nat (kEff_of k m n))) V) =
      Inr (map (\<lambda>l. map (\<lambda>j. V ! j ! l) [0..<n]) [0..<nat (kEff_of k m n)])"
    by (rule transpose_take[OF rV n0 b(2)])
  have "int (nat (kEff_of k m n)) = kEff_of k m n" using b(1) by simp
  with b ls(1) vt r
  show "\<exists>kk Vt. int kk = kEff_of k m n \<and> 1 \<le> kk \<and> kk \<le> length S \<and>
            numeric_transpose (map (take kk) V) = Inr Vt \<and>
            reconstruct (U, S, V) (kEff_of k m n) =
              Inr (numeric_dotMM (map (take kk) U)
                     (numeric_dotMM (numeric_diag (take kk S)) Vt))"
    by blast
  show "\<exists>out. compress_core svd ras k = Inr out"
    by (rule pipeline_succeeds[where svd=svd, OF p s sh k1 w])
next
  assume k: "int (min (height ras) (width ras)) \<le> k"
  have e: "kEff_of k m n = kEff_of (int (min (height ras) (width ras))) m n"
    if "prepare ras = Inr (mat, m, n)" for mat m n
  proof -
    have "min m n = min (height ras) (width ras)"
      using prepare_dims[OF that] by auto
    then show ?thesis using k by (simp add: kEff_of_above)
  qed
  show c: "compress_core svd ras k = compress_core svd ras (int (min (height ras) (width ras)))"
    by (rule compress_core_kEff) (rule e)
  fix out
  assume "compress_core svd ras (int (min (height ras) (width ras))) = Inr out"
  then show "compress_core svd ras k = Inr out" using c by simp
qed

theorem rank_clamped_from_above_witness:
  "compress_core svd_trivial
     \<lparr>width = 2, height = 2,
        data = [10, 10, 10, 255, 20, 20, 20, 255, 30, 30, 30, 255, 40, 40, 40, 255]\<rparr> 9999
   = Inr \<lparr>width = 2, height = 2,
           data = [10, 10, 10, 255, 20, 20, 20, 255, 30, 30, 30, 255, 40, 40, 40, 255]\<rparr> \<and>
   compress_core svd_trivial
     \<lparr>width = 2, height = 2,
        data = [10, 10, 10, 255, 20, 20, 20, 255, 30, 30, 30, 255, 40, 40, 40, 255]\<rparr> 2
   = Inr \<lparr>width = 2, height = 2,
           data = [10, 10, 10, 255, 20, 20, 20, 255, 30, 30, 30, 255, 40, 40, 40, 255]\<rparr> \<and>
   kEff_of 9999 2 2 = min 9999 (int (length [Num 1, Num 1])) \<and>
   reconstruct ([[Num 10, Num 20], [Num 30, Num 40]], [Num 1, Num 1],
                [[Num 1, Num 0], [Num 0, Num 1]]) (kEff_of 1 2 2)
   = Inr [[Num 10, Num 0], [Num 30, Num 0]]"
proof -
  define ras where "ras = \<lparr>width = 2, height = 2,
        data = [10, 10, 10, 255, 20, 20, 20, 255, 30, 30, 30, 255, 40, 40, 40, 255 :: 8 word]\<rparr>"
  let ?mat = "[[Num 10, Num 20], [Num 30, Num 40]]"
  let ?I = "[[Num 1, Num 0], [Num 0, Num 1]]"
  let ?S = "[Num 1, Num 1]"
  have two: "compress_core svd_trivial ras 2 = Inr ras" unfolding ras_def by code_simp
  have mn: "int (min (height ras) (width ras)) = 2" by (simp add: ras_def)
  have "compress_core svd_trivial ras 9999
      = compress_core svd_trivial ras (int (min (height ras) (width ras)))"
    using rank_clamped_from_above[of ras svd_trivial 9999] mn by simp
  then have big: "compress_core svd_trivial ras 9999 = Inr ras" using two mn by simp
  have p: "prepare ras = Inr (?mat, 2, 2)" unfolding ras_def by code_simp
  have s: "svd_trivial ?mat = Inr (?mat, ?S, ?I)" by code_simp
  have sh: "svd_shapes ?mat (?mat, ?S, ?I)" by code_simp
  have w: "1 \<le> width ras" by (simp add: ras_def)
  have ke: "kEff_of 9999 2 2 = min 9999 (int (length ?S))"
    using rank_clamped_from_above[of ras svd_trivial 9999] p s sh by blast
  have k1: "kEff_of 1 2 2 = 1" by (simp add: kEff_of_def)
  from rank_clamped_from_above[of ras svd_trivial 1] p s sh w
  have "\<exists>kk Vt. int kk = kEff_of 1 2 2 \<and> 1 \<le> kk \<and> kk \<le> length ?S \<and>
            numeric_transpose (map (take kk) ?I) = Inr Vt \<and>
            reconstruct (?mat, ?S, ?I) (kEff_of 1 2 2) =
              Inr (numeric_dotMM (map (take kk) ?mat)
                     (numeric_dotMM (numeric_diag (take kk ?S)) Vt))"
    by blast
  then obtain kk Vt where
    kk: "int kk = kEff_of 1 2 2" "numeric_transpose (map (take kk) ?I) = Inr Vt"
        "reconstruct (?mat, ?S, ?I) (kEff_of 1 2 2) =
              Inr (numeric_dotMM (map (take kk) ?mat)
                     (numeric_dotMM (numeric_diag (take kk ?S)) Vt))"
    by blast
  have kk1: "kk = 1" using kk(1) k1 by simp
  have "numeric_transpose (map (take 1) ?I) = Inr [[Num 1, Num 0]]" by code_simp
  then have vt: "Vt = [[Num 1, Num 0]]" using kk(2) kk1 by simp
  have "numeric_dotMM (map (take 1) ?mat) (numeric_dotMM (numeric_diag (take 1 ?S)) [[Num 1, Num 0]])
      = [[Num 10, Num 0], [Num 30, Num 0]]" by code_simp
  then have "reconstruct (?mat, ?S, ?I) (kEff_of 1 2 2) = Inr [[Num 10, Num 0], [Num 30, Num 0]]"
    using kk(3) kk1 vt by simp
  then show ?thesis using big two ke unfolding ras_def by blast
qed

section \<open>The orientation in a run\<close>

text \<open>
  Claim C3. For every raster with \<open>H \<ge> 1\<close> rows and \<open>W \<ge> 1\<close> columns, the matrix handed to
  the decomposition is the transpose of the grayscale matrix (\<open>W\<close> rows of \<open>H\<close> entries)
  exactly when \<open>H < W\<close>, which is when the flag \<open>tall\<close> is false, and the grayscale matrix
  itself otherwise. The inverse step transposes exactly when the flag is false: applied to
  the forward result it gives back the grayscale matrix. In a run of the core with
  \<open>k \<ge> 1\<close>, for every decomposition routine whose factors have the shapes of
  \<open>numeric.svd\<close>, the reconstruction has the dimensions of the matrix that was decomposed,
  and the matrix the two loops of lines 79 to 86 read is its image under the inverse step:
  \<open>H\<close> rows of \<open>W\<close> entries, entry \<open>(r, c)\<close> being entry \<open>(c, r)\<close> of the reconstruction when
  \<open>H < W\<close> and entry \<open>(r, c)\<close> otherwise.
\<close>

theorem orientation_round_trip:
  assumes "1 \<le> height ras" "1 \<le> width ras"
  shows "\<exists>mat. orient_forward (tall ras) (gray ras) = Inr mat \<and>
           (\<not> tall ras \<longleftrightarrow> height ras < width ras) \<and>
           (height ras < width ras \<longrightarrow>
              numeric_transpose (gray ras) = Inr mat \<and>
              rect mat (width ras) (height ras) \<and>
              (\<forall>j<width ras. \<forall>i<height ras. mat ! j ! i = gray ras ! i ! j)) \<and>
           (\<not> height ras < width ras \<longrightarrow> mat = gray ras) \<and>
           orient_inverse (tall ras) mat = Inr (gray ras) \<and>
           prepare ras = Inr (mat, max (height ras) (width ras), min (height ras) (width ras)) \<and>
           (\<forall>k U S V. 1 \<le> k \<and> svd mat = Inr (U, S, V) \<and> svd_shapes mat (U, S, V) \<longrightarrow>
              (\<exists>recon fin.
                 reconstruct (U, S, V)
                   (kEff_of k (max (height ras) (width ras)) (min (height ras) (width ras)))
                   = Inr recon \<and>
                 rect recon (max (height ras) (width ras)) (min (height ras) (width ras)) \<and>
                 orient_inverse (tall ras) recon = Inr fin \<and>
                 rect fin (height ras) (width ras) \<and>
                 (\<forall>r<height ras. \<forall>c<width ras.
                    fin ! r ! c = (if height ras < width ras then recon ! c ! r
                                   else recon ! r ! c)) \<and>
                 compress_core svd ras k = write_raster fin (width ras) (height ras)))"
proof -
  have h: "0 < height ras" and w: "0 < width ras" using assms by simp_all
  have "\<exists>mat. orient_forward (tall ras) (gray ras) = Inr mat \<and>
           (\<not> tall ras \<longleftrightarrow> height ras < width ras) \<and>
           (height ras < width ras \<longrightarrow>
              numeric_transpose (gray ras) = Inr mat \<and>
              rect mat (width ras) (height ras) \<and>
              (\<forall>j<width ras. \<forall>i<height ras. mat ! j ! i = gray ras ! i ! j)) \<and>
           (\<not> height ras < width ras \<longrightarrow> mat = gray ras) \<and>
           orient_inverse (tall ras) mat = Inr (gray ras) \<and>
           prepare ras = Inr (mat, max (height ras) (width ras), min (height ras) (width ras))"
  proof (cases "height ras < width ras")
    case True
    from prepare_wide[OF True h] obtain t where
      t: "prepare ras = Inr (t, width ras, height ras)" "numeric_transpose (gray ras) = Inr t"
         "rect t (width ras) (height ras)" "numeric_transpose t = Inr (gray ras)" by blast
    have nt: "\<not> tall ras" using True by (simp add: tall_def)
    have e: "\<forall>j<width ras. \<forall>i<height ras. t ! j ! i = gray ras ! i ! j"
      using transpose_dims[OF rect_gray h t(2)] by blast
    have mm: "max (height ras) (width ras) = width ras" "min (height ras) (width ras) = height ras"
      using True by simp_all
    have "orient_forward (tall ras) (gray ras) = Inr t"
      using nt t(2) by (simp add: orient_forward_def)
    moreover have "orient_inverse (tall ras) t = Inr (gray ras)"
      using nt t(4) by (simp add: orient_inverse_def)
    ultimately show ?thesis using True nt t e unfolding mm by blast
  next
    case False
    then have tl: "tall ras" and le: "width ras \<le> height ras" by (simp_all add: tall_def)
    have mm: "max (height ras) (width ras) = height ras" "min (height ras) (width ras) = width ras"
      using False by simp_all
    have "orient_forward (tall ras) (gray ras) = Inr (gray ras)"
      using tl by (simp add: orient_forward_def)
    moreover have "orient_inverse (tall ras) (gray ras) = Inr (gray ras)"
      using tl by (simp add: orient_inverse_def)
    ultimately show ?thesis using False tl prepare_tall[OF le h] unfolding mm by blast
  qed
  then obtain mat where
    m: "orient_forward (tall ras) (gray ras) = Inr mat"
       "\<not> tall ras \<longleftrightarrow> height ras < width ras"
       "height ras < width ras \<longrightarrow>
              numeric_transpose (gray ras) = Inr mat \<and>
              rect mat (width ras) (height ras) \<and>
              (\<forall>j<width ras. \<forall>i<height ras. mat ! j ! i = gray ras ! i ! j)"
       "\<not> height ras < width ras \<longrightarrow> mat = gray ras"
       "orient_inverse (tall ras) mat = Inr (gray ras)"
       "prepare ras = Inr (mat, max (height ras) (width ras), min (height ras) (width ras))"
    by blast
  have pipe: "\<exists>recon fin.
                 reconstruct (U, S, V)
                   (kEff_of k (max (height ras) (width ras)) (min (height ras) (width ras)))
                   = Inr recon \<and>
                 rect recon (max (height ras) (width ras)) (min (height ras) (width ras)) \<and>
                 orient_inverse (tall ras) recon = Inr fin \<and>
                 rect fin (height ras) (width ras) \<and>
                 (\<forall>r<height ras. \<forall>c<width ras.
                    fin ! r ! c = (if height ras < width ras then recon ! c ! r
                                   else recon ! r ! c)) \<and>
                 compress_core svd ras k = write_raster fin (width ras) (height ras)"
    if "1 \<le> k \<and> svd mat = Inr (U, S, V) \<and> svd_shapes mat (U, S, V)" for k U S V
  proof -
    from that have k: "1 \<le> k" and s: "svd mat = Inr (U, S, V)"
      and sh: "svd_shapes mat (U, S, V)" by blast+
    from pipeline_matrix[where svd=svd, OF m(6) s sh k assms(2)] show ?thesis by blast
  qed
  show ?thesis using m pipe by blast
qed

theorem orientation_round_trip_witness:
  "orient_forward (tall \<lparr>width = 2, height = 1, data = [10, 10, 10, 255, 20, 20, 20, 255]\<rparr>)
     (gray \<lparr>width = 2, height = 1, data = [10, 10, 10, 255, 20, 20, 20, 255]\<rparr>)
     = Inr [[Num 10], [Num 20]] \<and>
   gray \<lparr>width = 2, height = 1, data = [10, 10, 10, 255, 20, 20, 20, 255]\<rparr> = [[Num 10, Num 20]] \<and>
   orient_inverse (tall \<lparr>width = 2, height = 1, data = [10, 10, 10, 255, 20, 20, 20, 255]\<rparr>)
     [[Num 10], [Num 20]]
     = Inr (gray \<lparr>width = 2, height = 1, data = [10, 10, 10, 255, 20, 20, 20, 255]\<rparr>) \<and>
   reconstruct ([[Num 10], [Num 20]], [Num 1], [[Num 1]]) (kEff_of 5 2 1)
     = Inr [[Num 10], [Num 20]] \<and>
   compress_core svd_trivial \<lparr>width = 2, height = 1, data = [10, 10, 10, 255, 20, 20, 20, 255]\<rparr> 5
     = write_raster [[Num 10, Num 20]] 2 1"
proof -
  define ras where
    "ras = \<lparr>width = 2, height = 1, data = [10, 10, 10, 255, 20, 20, 20, 255 :: 8 word]\<rparr>"
  let ?t = "[[Num 10], [Num 20]]"
  have h: "1 \<le> height ras" "1 \<le> width ras" by (simp_all add: ras_def)
  from orientation_round_trip[OF h, of svd_trivial] obtain mat where
    m: "orient_forward (tall ras) (gray ras) = Inr mat"
       "orient_inverse (tall ras) mat = Inr (gray ras)"
       "\<forall>k U S V. 1 \<le> k \<and> svd_trivial mat = Inr (U, S, V) \<and> svd_shapes mat (U, S, V) \<longrightarrow>
              (\<exists>recon fin.
                 reconstruct (U, S, V)
                   (kEff_of k (max (height ras) (width ras)) (min (height ras) (width ras)))
                   = Inr recon \<and>
                 rect recon (max (height ras) (width ras)) (min (height ras) (width ras)) \<and>
                 orient_inverse (tall ras) recon = Inr fin \<and>
                 rect fin (height ras) (width ras) \<and>
                 (\<forall>r<height ras. \<forall>c<width ras.
                    fin ! r ! c = (if height ras < width ras then recon ! c ! r
                                   else recon ! r ! c)) \<and>
                 compress_core svd_trivial ras k = write_raster fin (width ras) (height ras))"
    by (elim exE conjE)
  have f: "orient_forward (tall ras) (gray ras) = Inr ?t" unfolding ras_def by code_simp
  have g: "gray ras = [[Num 10, Num 20]]" unfolding ras_def by code_simp
  from m(1) f have mat: "mat = ?t" by simp
  have s: "svd_trivial ?t = Inr (?t, [Num 1], [[Num 1]])" by code_simp
  have sh: "svd_shapes ?t (?t, [Num 1], [[Num 1]])" by code_simp
  have pre: "(1::int) \<le> 5 \<and> svd_trivial ?t = Inr (?t, [Num 1], [[Num 1]]) \<and>
             svd_shapes ?t (?t, [Num 1], [[Num 1]])"
    using s sh by simp
  from m(3)[unfolded mat, rule_format, OF pre] obtain recon fin where
    r: "reconstruct (?t, [Num 1], [[Num 1]])
          (kEff_of 5 (max (height ras) (width ras)) (min (height ras) (width ras))) = Inr recon"
       "orient_inverse (tall ras) recon = Inr fin"
       "compress_core svd_trivial ras 5 = write_raster fin (width ras) (height ras)"
    by blast
  have mm: "max (height ras) (width ras) = 2" "min (height ras) (width ras) = 1"
    by (simp_all add: ras_def)
  have ev: "reconstruct (?t, [Num 1], [[Num 1]]) (kEff_of 5 2 1) = Inr ?t" by code_simp
  have rc: "recon = ?t" using r(1)[unfolded mm] unfolding ev by simp
  have "orient_inverse (tall ras) ?t = Inr [[Num 10, Num 20]]" unfolding ras_def by code_simp
  then have fn: "fin = [[Num 10, Num 20]]" using r(2) unfolding rc by simp
  have hw: "width ras = 2" "height ras = 1" by (simp_all add: ras_def)
  have c: "compress_core svd_trivial ras 5 = write_raster [[Num 10, Num 20]] 2 1"
    using r(3) unfolding fn hw .
  have i: "orient_inverse (tall ras) ?t = Inr (gray ras)" using m(2) unfolding mat .
  have r': "reconstruct (?t, [Num 1], [[Num 1]]) (kEff_of 5 2 1) = Inr ?t" by (rule ev)
  show ?thesis using f g i r' c unfolding ras_def by blast
qed

section \<open>Ranks below one\<close>




lemma compress_core_svd_error:
  assumes "prepare ras = Inr (mat, m, n)" and "svd mat = Inl e"
  shows "compress_core svd ras k = Inl e"
  unfolding compress_core_def assms sum.case prod.case Let_def by (rule refl)

lemma compress_core_reconstruct_error:
  assumes "prepare ras = Inr (mat, m, n)" and "svd mat = Inr usv"
    and "reconstruct usv (kEff_of k m n) = Inl e"
  shows "compress_core svd ras k = Inl e"
  unfolding compress_core_def assms sum.case prod.case Let_def by (rule refl)






section \<open>Rasters without pixels\<close>

lemma reconstruct_no_columns:
  "reconstruct (U, S, []) kEff = Inl TypeError"
  by (simp add: reconstruct_def numeric_transpose_def)

lemma compress_core_empty_raster:
  assumes z: "width ras = 0 \<or> height ras = 0"
    and sh: "\<forall>mat usv. svd mat = Inr usv \<longrightarrow> svd_shapes mat usv"
  shows "\<exists>e. compress_core svd ras k = Inl e"
proof (cases "height ras = 0")
  case True
  from compress_core_prepare_error[OF prepare_empty[OF True]] show ?thesis by blast
next
  case False
  then have h: "0 < height ras" and w: "width ras = 0" using z by simp_all
  have le: "width ras \<le> height ras" using w by simp
  have p: "prepare ras = Inr (gray ras, height ras, width ras)" by (rule prepare_tall[OF le h])
  show ?thesis
  proof (cases "svd (gray ras)")
    case (Inl e)
    from compress_core_svd_error[where svd=svd, OF p Inl] show ?thesis by blast
  next
    case (Inr usv)
    obtain U S V where usv: "usv = (U, S, V)" by (cases usv)
    have "svd_shapes (gray ras) (U, S, V)" using sh Inr usv by blast
    moreover have "length (hd (gray ras)) = 0" using prepare_shape(6)[OF p] w by simp
    ultimately have "V = []" by (simp add: svd_shapes_def Let_def)
    then have "reconstruct usv (kEff_of k (height ras) (width ras)) = Inl TypeError"
      using usv by (simp add: reconstruct_no_columns)
    from compress_core_reconstruct_error[where svd=svd, OF p Inr this] show ?thesis by blast
  qed
qed

text \<open>
  Claim C7. The raster that lines 52 to 58 project is the one \<open>getImageData\<close> returns on
  line 49, and that call is where an image with no width or no height fails: it throws (an
  \<open>IndexSizeError\<close>, the exception that stands for the claim's \<open>InvalidDimensions\<close>) if and
  only if the width or the height is zero. The exception ends the run as it is thrown: no
  raster is returned. Were such a raster to reach line 52 all the same, the run would still
  end in an exception, for every decomposition routine in the shapes of \<open>numeric.svd\<close>. For a
  raster with \<open>W \<ge> 1\<close> and \<open>H \<ge> 1\<close> lines 49 to 64 succeed: the grayscale matrix has \<open>H\<close>
  rows of \<open>W\<close> entries and the matrix for the decomposition is built. An exception of lines
  52 to 64 is the result of the run, unchanged.
\<close>

theorem projection_fails_only_on_empty_raster:
  "((\<exists>e. getImageData img = Inl e) \<longleftrightarrow> width img = 0 \<or> height img = 0) \<and>
   (width img = 0 \<or> height img = 0 \<longrightarrow>
      getImageData img = Inl IndexSizeError \<and>
      compress_sync svd img k = Inl IndexSizeError \<and>
      ((\<forall>mat usv. svd mat = Inr usv \<longrightarrow> svd_shapes mat usv) \<longrightarrow>
         (\<exists>e. compress_core svd img k = Inl e))) \<and>
   (1 \<le> width img \<and> 1 \<le> height img \<longrightarrow>
      getImageData img = Inr img \<and>
      rect (gray img) (height img) (width img) \<and>
      (\<exists>mat. prepare img =
         Inr (mat, max (height img) (width img), min (height img) (width img))) \<and>
      compress_sync svd img k = compress_core svd img k) \<and>
   (\<forall>e. prepare img = Inl e \<longrightarrow> compress_core svd img k = Inl e)"
proof (intro conjI impI allI)
  show "(\<exists>e. getImageData img = Inl e) \<longleftrightarrow> width img = 0 \<or> height img = 0"
    by (simp add: getImageData_def)
next
  assume z: "width img = 0 \<or> height img = 0"
  then show g: "getImageData img = Inl IndexSizeError" by (simp add: getImageData_def)
  show "compress_sync svd img k = Inl IndexSizeError" by (simp add: compress_sync_def g)
  assume "\<forall>mat usv. svd mat = Inr usv \<longrightarrow> svd_shapes mat usv"
  with z show "\<exists>e. compress_core svd img k = Inl e" by (rule compress_core_empty_raster)
next
  assume a: "1 \<le> width img \<and> 1 \<le> height img"
  then have h: "0 < height img" and w: "0 < width img" by simp_all
  show g: "getImageData img = Inr img" using a by (simp add: getImageData_def)
  show "rect (gray img) (height img) (width img)" by (rule rect_gray)
  show "compress_sync svd img k = compress_core svd img k" by (simp add: compress_sync_def g)
  show "\<exists>mat. prepare img =
         Inr (mat, max (height img) (width img), min (height img) (width img))"
  proof (cases "height img < width img")
    case True
    then have "max (height img) (width img) = width img"
      "min (height img) (width img) = height img" by simp_all
    then show ?thesis using prepare_wide[OF True h] by auto
  next
    case False
    then have le: "width img \<le> height img" by simp
    then have "max (height img) (width img) = height img"
      "min (height img) (width img) = width img" by simp_all
    then show ?thesis using prepare_tall[OF le h] by simp
  qed
next
  fix e assume "prepare img = Inl e"
  then show "compress_core svd img k = Inl e" by (rule compress_core_prepare_error)
qed

theorem projection_fails_only_on_empty_raster_witness:
  "getImageData \<lparr>width = 0, height = 3, data = []\<rparr> = Inl IndexSizeError \<and>
   compress_sync svd_trivial \<lparr>width = 0, height = 3, data = []\<rparr> 20 = Inl IndexSizeError \<and>
   getImageData \<lparr>width = 3, height = 0, data = []\<rparr> = Inl IndexSizeError \<and>
   getImageData \<lparr>width = 1, height = 1, data = [7, 7, 7, 255]\<rparr>
     = Inr \<lparr>width = 1, height = 1, data = [7, 7, 7, 255]\<rparr> \<and>
   rect (gray \<lparr>width = 1, height = 1, data = [7, 7, 7, 255]\<rparr>) 1 1 \<and>
   prepare \<lparr>width = 1, height = 1, data = [7, 7, 7, 255]\<rparr> = Inr ([[Num 7]], 1, 1) \<and>
   compress_sync svd_trivial \<lparr>width = 1, height = 1, data = [7, 7, 7, 255]\<rparr> 20
     = compress_core svd_trivial \<lparr>width = 1, height = 1, data = [7, 7, 7, 255]\<rparr> 20"
proof -
  define a where "a = \<lparr>width = 0, height = 3, data = [] :: 8 word list\<rparr>"
  define b where "b = \<lparr>width = 3, height = 0, data = [] :: 8 word list\<rparr>"
  define c where "c = \<lparr>width = 1, height = 1, data = [7, 7, 7, 255 :: 8 word]\<rparr>"
  have za: "width a = 0 \<or> height a = 0" by (simp add: a_def)
  have zb: "width b = 0 \<or> height b = 0" by (simp add: b_def)
  have oc: "1 \<le> width c \<and> 1 \<le> height c" by (simp add: c_def)
  have ga: "getImageData a = Inl IndexSizeError"
    "compress_sync svd_trivial a 20 = Inl IndexSizeError"
    using projection_fails_only_on_empty_raster[of a svd_trivial 20] za by blast+
  have gb: "getImageData b = Inl IndexSizeError"
    using projection_fails_only_on_empty_raster[of b svd_trivial 20] zb by blast
  have gc: "getImageData c = Inr c" "rect (gray c) (height c) (width c)"
    "compress_sync svd_trivial c 20 = compress_core svd_trivial c 20"
    using projection_fails_only_on_empty_raster[of c svd_trivial 20] oc by blast+
  have hw: "height c = 1" "width c = 1" by (simp_all add: c_def)
  have p: "prepare c = Inr ([[Num 7]], 1, 1)" unfolding c_def by code_simp
  show ?thesis using ga gb gc(1,3) gc(2)[unfolded hw] p unfolding a_def b_def c_def by blast
qed

section \<open>Factors that are not finite\<close>

text \<open>
  Claim C9 fails on the code. Lines 68 to 86 use the factors that \<open>numeric.svd\<close> returns
  without looking at them. When a \<open>NaN\<close> stands among the first \<open>kEff\<close> singular values, or
  in the first \<open>kEff\<close> columns of every row of \<open>U\<close> or of every row of \<open>V\<close>, every entry of
  the reconstruction is \<open>NaN\<close>, whatever the luminance matrix was, and the raster written
  is black and opaque: the run succeeds and the luminance is not reproduced.
\<close>

theorem nonfinite_factors_blacken_output:
  assumes "prepare ras = Inr (mat, m, n)" and "svd mat = Inr usv" and "svd_shapes mat usv"
    and "1 \<le> k" and "1 \<le> width ras"
    and "nonfinite_factors usv (nat (kEff_of k m n))"
  shows "\<exists>recon out.
           reconstruct usv (kEff_of k m n) = Inr recon \<and> rect recon m n \<and>
           (\<forall>i<m. \<forall>j<n. recon ! i ! j = NaN) \<and>
           compress_core svd ras k = Inr out \<and>
           width out = width ras \<and> height out = height ras \<and>
           length (data out) = 4 * (width ras * height ras) \<and>
           (\<forall>i<4 * (width ras * height ras). data out ! i = (if i mod 4 = 3 then 255 else 0))"
proof -
  obtain U S V where usv: "usv = (U, S, V)" by (cases usv)
  note d = prepare_shape[OF assms(1)]
  have hd: "length (hd mat) = n" by (rule d(6))
  have s: "length U = m" "list_all (\<lambda>row. length row = n) U" "length S = n"
    "length V = n" "list_all (\<lambda>row. length row = n) V"
    using assms(3) hd d(1) by (simp_all add: usv svd_shapes_def Let_def rect_def)
  from pipeline_matrix[where svd=svd, OF assms(1) assms(2)[unfolded usv] assms(3)[unfolded usv] assms(4,5)]
  obtain recon fin where
    rb: "recon = numeric_dotMM (map (take (nat (kEff_of k m n))) U)
                   (numeric_dotMM (numeric_diag (take (nat (kEff_of k m n)) S))
                      (map (\<lambda>l. map (\<lambda>j. V ! j ! l) [0..<n]) [0..<nat (kEff_of k m n)]))"
        "reconstruct (U, S, V) (kEff_of k m n) = Inr recon" "rect recon m n"
        "1 \<le> nat (kEff_of k m n)" "nat (kEff_of k m n) \<le> n"
        "orient_inverse (tall ras) recon = Inr fin" "rect fin (height ras) (width ras)"
        "\<forall>r<height ras. \<forall>c<width ras.
           fin ! r ! c = (if height ras < width ras then recon ! c ! r else recon ! r ! c)"
        "compress_core svd ras k = write_raster fin (width ras) (height ras)"
    by blast
  have nan: "recon ! i ! j = NaN" if "i < m" "j < n" for i j
    unfolding rb(1)
    by (rule nonfinite_product[OF s rb(4,5) assms(6)[unfolded usv] that])
  have bnan: "\<forall>r<height ras. \<forall>c<width ras. fin ! r ! c = NaN"
  proof (intro allI impI)
    fix r c assume rc: "r < height ras" "c < width ras"
    show "fin ! r ! c = NaN"
    proof (cases "height ras < width ras")
      case True
      then have "c < m" "r < n" using rc d(4,5) by simp_all
      then show ?thesis using rb(8) rc True nan by simp
    next
      case False
      then have "r < m" "c < n" using rc d(4,5) by simp_all
      then show ?thesis using rb(8) rc False nan by simp
    qed
  qed
  from write_raster_NaN[OF rb(7) bnan] obtain out where
    o: "write_raster fin (width ras) (height ras) = Inr out" "width out = width ras"
       "height out = height ras" "length (data out) = 4 * (width ras * height ras)"
       "\<forall>i<4 * (width ras * height ras). data out ! i = (if i mod 4 = 3 then 255 else 0)"
    by blast
  have "compress_core svd ras k = Inr out" using rb(9) o(1) by simp
  moreover have "reconstruct usv (kEff_of k m n) = Inr recon" using rb(2) usv by simp
  ultimately show ?thesis using rb(3) nan o by blast
qed

theorem nonfinite_factors_blacken_output_witness:
  "gray \<lparr>width = 2, height = 2,
      data = [100, 100, 100, 255, 100, 100, 100, 255, 100, 100, 100, 255, 100, 100, 100, 255]\<rparr>
     = [[Num 100, Num 100], [Num 100, Num 100]] \<and>
   reconstruct ([[NaN, NaN], [NaN, NaN]], [NaN, NaN], [[NaN, NaN], [NaN, NaN]]) (kEff_of 2 2 2)
     = Inr [[NaN, NaN], [NaN, NaN]] \<and>
   compress_core svd_nonfinite \<lparr>width = 2, height = 2,
      data = [100, 100, 100, 255, 100, 100, 100, 255, 100, 100, 100, 255, 100, 100, 100, 255]\<rparr> 2
     = Inr \<lparr>width = 2, height = 2,
         data = [0, 0, 0, 255, 0, 0, 0, 255, 0, 0, 0, 255, 0, 0, 0, 255]\<rparr>"
proof -
  define ras where "ras = \<lparr>width = 2, height = 2,
      data = [100, 100, 100, 255, 100, 100, 100, 255,
              100, 100, 100, 255, 100, 100, 100, 255 :: 8 word]\<rparr>"
  let ?mat = "[[Num 100, Num 100], [Num 100, Num 100]]"
  let ?N = "[[NaN, NaN], [NaN, NaN]]"
  let ?usv = "(?N, [NaN, NaN], ?N)"
  let ?black = "[0, 0, 0, 255, 0, 0, 0, 255, 0, 0, 0, 255, 0, 0, 0, 255 :: 8 word]"
  have g: "gray ras = ?mat" unfolding ras_def by code_simp
  have p: "prepare ras = Inr (?mat, 2, 2)" unfolding ras_def by code_simp
  have s: "svd_nonfinite ?mat = Inr ?usv" by code_simp
  have sh: "svd_shapes ?mat ?usv" by code_simp
  have ke: "kEff_of 2 2 2 = 2" by (simp add: kEff_of_def)
  have nf: "nonfinite_factors ?usv (nat (kEff_of 2 2 2))" unfolding ke by code_simp
  have w: "1 \<le> width ras" and k: "(1::int) \<le> 2" by (simp_all add: ras_def)
  have hw: "width ras = 2" "height ras = 2" by (simp_all add: ras_def)
  from nonfinite_factors_blacken_output[where svd=svd_nonfinite, OF p s sh k w nf]
  obtain recon out where
    o: "reconstruct ?usv (kEff_of 2 2 2) = Inr recon"
       "compress_core svd_nonfinite ras 2 = Inr out"
       "width out = width ras" "height out = height ras"
       "length (data out) = 4 * (width ras * height ras)"
       "\<forall>i<4 * (width ras * height ras). data out ! i = (if i mod 4 = 3 then 255 else 0)"
    by blast
  have len: "length (data out) = 16" using o(5) unfolding hw by simp
  have el: "\<forall>i<16. data out ! i = (if i mod 4 = 3 then 255 else 0)"
    using o(6) unfolding hw by simp
  have d: "data out = ?black"
  proof (rule nth_equalityI)
    show "length (data out) = length ?black" using len by simp
  next
    fix i assume "i < length (data out)"
    then have i: "i < 16" using len by simp
    have every: "\<forall>i\<in>set [0..<16]. (if i mod 4 = 3 then 255 else (0::8 word)) = ?black ! i"
      by code_simp
    have "i \<in> set [0..<16]" using i by simp
    with every have "(if i mod 4 = 3 then 255 else (0::8 word)) = ?black ! i" by (rule bspec)
    moreover have "data out ! i = (if i mod 4 = 3 then 255 else 0)" using el i by simp
    ultimately show "data out ! i = ?black ! i" by simp
  qed
  have "out = \<lparr>width = 2, height = 2, data = ?black\<rparr>"
    using o(3,4) d unfolding hw by (cases out) simp
  then have c: "compress_core svd_nonfinite ras 2 = Inr \<lparr>width = 2, height = 2, data = ?black\<rparr>"
    using o(2) by simp
  have "reconstruct ?usv (kEff_of 2 2 2) = Inr ?N" by code_simp
  then have r: "recon = ?N" using o(1) by simp
  show ?thesis using g o(1)[unfolded r] c unfolding ras_def by blast
qed

end
